theory Spec2Isabelle
  imports Main
begin

section \<open>Values, errors and the environment\<close>

text \<open>
  The program keeps its data as the Python values that \<^verbatim>\<open>json.load\<close> returns: a task and the
  document are dictionaries, not typed records. The model keeps them so. A dictionary is an
  association list in insertion order (the order \<^verbatim>\<open>json.dump\<close> writes). Numbers are the
  integers; numbers with a fraction or an exponent are outside the model.
\<close>

datatype json =
    JNull
  | JBool bool
  | JInt int
  | JStr string
  | JArr "json list"
  | JObj "(string \<times> json) list"

text \<open>
  The exceptions the code can raise. \<open>PermissionError\<close> and \<open>OSError\<close> come from the file
  system (\<open>OSError\<close> stands for every exception of a file operation other than a
  \<open>PermissionError\<close>). \<open>UnicodeDecodeError\<close>, \<open>RecursionError\<close> and \<open>ValueError\<close> are what
  \<^verbatim>\<open>json.load\<close> raises, apart from \<^verbatim>\<open>json.JSONDecodeError\<close>, on a text that is not valid UTF-8,
  that nests too deep, or that holds an integer of more than 4300 digits. The others come
  from operating on a value of the wrong Python type.
\<close>

datatype error =
    PermissionError | OSError | KeyError | TypeError | AttributeError
  | UnicodeDecodeError | RecursionError | ValueError

text \<open>
  What \<^verbatim>\<open>json.load(f)\<close> does on a text: it returns a value, raises \<^verbatim>\<open>json.JSONDecodeError\<close>,
  or raises another exception.
\<close>

datatype load_result = Parsed json | JSONDecodeError | Raises error

text \<open>
  What is at a path, up to the serialisation. \<open>Dumped v\<close> is the complete text that
  \<^verbatim>\<open>json.dump(v, f, indent=2, ensure_ascii=False)\<close> writes, which \<^verbatim>\<open>json.load\<close> reads back as
  \<open>v\<close> (a value that \<^verbatim>\<open>json.dump\<close> cannot write makes the save fail, and is never stored).
  \<open>Cut n v\<close> is that text cut short after \<open>n\<close> characters (a write that did not finish).
  \<open>Other s r\<close> is any other text \<open>s\<close>, together with what \<^verbatim>\<open>json.load\<close> does on it.
  \<open>Unresolvable\<close> is not a text: the path leads nowhere (a symbolic link that loops or
  dangles, a parent that is not a directory), so that \<^verbatim>\<open>os.stat\<close> fails with \<^verbatim>\<open>ELOOP\<close>,
  \<^verbatim>\<open>ENOENT\<close> or \<^verbatim>\<open>ENOTDIR\<close>.
\<close>

datatype file_text = Dumped json | Cut nat json | Other string load_result | Unresolvable

text \<open>The lines the storage module prints.\<close>

datatype message =
    WarnCorruptedData    \<comment> \<open>Warning: Corrupted data file. Resetting to empty state.\<close>
  | WarnCorruptedJSON    \<comment> \<open>Warning: Corrupted JSON file. Resetting to empty state.\<close>
  | ErrPermissionRead    \<comment> \<open>Error: Permission denied when reading STORAGE_FILE\<close>
  | ErrLoad error        \<comment> \<open>Error: Failed to load data: e\<close>
  | ErrPermissionWrite   \<comment> \<open>Error: Permission denied when writing to STORAGE_FILE\<close>
  | ErrSave error        \<comment> \<open>Error: Failed to save data: e\<close>

text \<open>
  The point at which a save fails, with the exception raised there: creating the parent
  directory, opening the temporary file, writing to it (after \<open>n\<close> characters reached the
  file), or renaming it onto the storage file.
\<close>

datatype save_fault =
    MkdirFails error
  | OpenFails error
  | WriteFails nat error
  | ReplaceFails error

text \<open>
  The failure of a load that does not come from the text of the file. \<open>ExistsRaises e\<close>:
  \<^verbatim>\<open>STORAGE_FILE.exists()\<close> raises \<open>e\<close>; it calls \<^verbatim>\<open>os.stat\<close> and lets through every
  \<^verbatim>\<open>OSError\<close> whose code is not \<^verbatim>\<open>ENOENT\<close>, \<^verbatim>\<open>ENOTDIR\<close>, \<^verbatim>\<open>EBADF\<close> or \<^verbatim>\<open>ELOOP\<close>, a
  \<open>PermissionError\<close> on a directory of the path for one. \<open>OpenRaises e\<close>: \<^verbatim>\<open>open\<close> or the
  read raises \<open>e\<close>.
\<close>

datatype read_fault = ExistsRaises error | OpenRaises error

text \<open>
  What lies outside the program during one call: the failure of the load (if any), the
  failure of the save (if any), the text of \<^verbatim>\<open>datetime.now().isoformat()\<close>, and what
  \<^verbatim>\<open>json.load\<close> does on the text of a value cut short after some characters (the
  characters themselves are not in the model).
\<close>

record env =
  read_fault :: "read_fault option"
  save_fault :: "save_fault option"
  clock :: string
  cut_load :: "nat \<Rightarrow> json \<Rightarrow> load_result"

text \<open>\<^verbatim>\<open>json.load(f)\<close> on what the storage path holds.\<close>

fun json_load :: "env \<Rightarrow> file_text \<Rightarrow> load_result" where
  "json_load ev (Dumped v) = Parsed v"
| "json_load ev (Cut n v) = cut_load ev n v"
| "json_load ev (Other s r) = r"
| "json_load ev Unresolvable = Raises OSError"

text \<open>
  The world the program acts on: the storage file \<^verbatim>\<open>~/.todo.json\<close> (\<open>None\<close>: it does not
  exist), the temporary file \<^verbatim>\<open>~/.todo.tmp\<close> beside it, and the lines printed so far.
\<close>

record world =
  store :: "file_text option"
  temp :: "file_text option"
  out :: "message list"

definition emit :: "message \<Rightarrow> world \<Rightarrow> world" where
  "emit m w = w\<lparr>out := out w @ [m]\<rparr>"

section \<open>Python operations on values\<close>

text \<open>\<^verbatim>\<open>d[k]\<close> for a string key \<open>k\<close>.\<close>

fun get_item :: "json \<Rightarrow> string \<Rightarrow> error + json" where
  "get_item (JObj kvs) k = (case map_of kvs k of None \<Rightarrow> Inl KeyError | Some v \<Rightarrow> Inr v)"
| "get_item _ k = Inl TypeError"

text \<open>\<^verbatim>\<open>d[k] = v\<close> on a dictionary: an existing key keeps its place, a new key goes last.\<close>

fun dict_set :: "(string \<times> json) list \<Rightarrow> string \<Rightarrow> json \<Rightarrow> (string \<times> json) list" where
  "dict_set [] k v = [(k, v)]"
| "dict_set (p # ps) k v = (if fst p = k then (k, v) # ps else p # dict_set ps k v)"

fun set_item :: "json \<Rightarrow> string \<Rightarrow> json \<Rightarrow> error + json" where
  "set_item (JObj kvs) k v = Inr (JObj (dict_set kvs k v))"
| "set_item (JArr xs) k v = Inl TypeError"
| "set_item _ k v = Inl TypeError"

text \<open>\<^verbatim>\<open>k in d\<close> as the validation of \<^verbatim>\<open>load_data\<close> uses it, on a dictionary.\<close>

fun is_dict :: "json \<Rightarrow> bool" where
  "is_dict (JObj kvs) = True"
| "is_dict _ = False"

fun has_key :: "json \<Rightarrow> string \<Rightarrow> bool" where
  "has_key (JObj kvs) k = (k \<in> fst ` set kvs)"
| "has_key _ k = False"

text \<open>\<^verbatim>\<open>v == task_id\<close> for an integer \<open>task_id\<close>: Python's \<open>True\<close> and \<open>False\<close> equal 1 and 0.\<close>

fun py_eq_int :: "json \<Rightarrow> int \<Rightarrow> bool" where
  "py_eq_int (JInt n) i = (n = i)"
| "py_eq_int (JBool b) i = ((if b then 1 else 0) = i)"
| "py_eq_int _ i = False"

text \<open>The elements \<^verbatim>\<open>for task in v\<close> visits: a string yields its characters, a dictionary its keys.\<close>

fun py_iter :: "json \<Rightarrow> error + json list" where
  "py_iter (JArr xs) = Inr xs"
| "py_iter (JStr s) = Inr (map (\<lambda>c. JStr [c]) s)"
| "py_iter (JObj kvs) = Inr (map (\<lambda>p. JStr (fst p)) kvs)"
| "py_iter _ = Inl TypeError"

text \<open>\<^verbatim>\<open>len(v)\<close>.\<close>

fun py_len :: "json \<Rightarrow> error + nat" where
  "py_len (JArr xs) = Inr (length xs)"
| "py_len (JStr s) = Inr (length s)"
| "py_len (JObj kvs) = Inr (length kvs)"
| "py_len _ = Inl TypeError"

text \<open>\<^verbatim>\<open>v.append(x)\<close>: only a list has the method.\<close>

fun py_append :: "json \<Rightarrow> json \<Rightarrow> error + json" where
  "py_append (JArr xs) x = Inr (JArr (xs @ [x]))"
| "py_append _ x = Inl AttributeError"

text \<open>\<^verbatim>\<open>v += 1\<close>: a list fails on the integer operand, a boolean counts as 0 or 1.\<close>

fun py_add1 :: "json \<Rightarrow> error + json" where
  "py_add1 (JInt n) = Inr (JInt (n + 1))"
| "py_add1 (JBool b) = Inr (JInt ((if b then 1 else 0) + 1))"
| "py_add1 _ = Inl TypeError"

definition bind_err :: "error + 'a \<Rightarrow> ('a \<Rightarrow> error + 'b) \<Rightarrow> error + 'b" where
  "bind_err r f = (case r of Inl e \<Rightarrow> Inl e | Inr x \<Rightarrow> f x)"

section \<open>storage.py\<close>

definition get_default_data :: json where
  "get_default_data = JObj [(''tasks'', JArr []), (''next_id'', JInt 1)]"

text \<open>
  \<^verbatim>\<open>STORAGE_FILE.exists()\<close>, which \<^verbatim>\<open>load_data\<close> calls before its \<^verbatim>\<open>try\<close>: an exception
  passes to the caller as it is; a path that does not resolve counts as a missing file.
\<close>

fun stat_raises :: "read_fault option \<Rightarrow> error option" where
  "stat_raises (Some (ExistsRaises e)) = Some e"
| "stat_raises _ = None"

fun open_raises :: "read_fault option \<Rightarrow> error option" where
  "open_raises (Some (OpenRaises e)) = Some e"
| "open_raises _ = None"

fun resolves :: "file_text option \<Rightarrow> bool" where
  "resolves None = False"
| "resolves (Some Unresolvable) = False"
| "resolves (Some _) = True"

definition storage_exists :: "env \<Rightarrow> world \<Rightarrow> error + bool" where
  "storage_exists ev w =
     (case stat_raises (read_fault ev) of
        Some e \<Rightarrow> Inl e
      | None \<Rightarrow> Inr (resolves (store w)))"

text \<open>The two handlers of \<^verbatim>\<open>load_data\<close> that print an error line and raise again.\<close>

definition report_load :: "error \<Rightarrow> world \<Rightarrow> world" where
  "report_load e w = emit (if e = PermissionError then ErrPermissionRead else ErrLoad e) w"

text \<open>
  \<^verbatim>\<open>load_data\<close>: a missing file gives the default. Inside the \<^verbatim>\<open>try\<close>, a
  \<^verbatim>\<open>JSONDecodeError\<close> gives the default with a warning, as does a parsed value that is not
  a dictionary with the keys \<^verbatim>\<open>tasks\<close> and \<^verbatim>\<open>next_id\<close>; the values under the two keys are
  not inspected. Every other exception of \<^verbatim>\<open>open\<close>, of the read or of \<^verbatim>\<open>json.load\<close> is
  printed and raised again. (A file that is gone when \<^verbatim>\<open>open\<close> looks for it is such an
  exception.)
\<close>

definition load_data :: "env \<Rightarrow> world \<Rightarrow> (error + json) \<times> world" where
  "load_data ev w =
    (case storage_exists ev w of
       Inl e \<Rightarrow> (Inl e, w)
     | Inr found \<Rightarrow>
        if \<not> found then (Inr get_default_data, w)
        else
         (case open_raises (read_fault ev) of
            Some e \<Rightarrow> (Inl e, report_load e w)
          | None \<Rightarrow>
             (case store w of
                None \<Rightarrow> (Inl OSError, report_load OSError w)
              | Some txt \<Rightarrow>
                 (case json_load ev txt of
                    JSONDecodeError \<Rightarrow> (Inr get_default_data, emit WarnCorruptedJSON w)
                  | Raises e \<Rightarrow> (Inl e, report_load e w)
                  | Parsed data \<Rightarrow>
                      if \<not> is_dict data \<or> \<not> has_key data ''tasks'' \<or>
                         \<not> has_key data ''next_id''
                      then (Inr get_default_data, emit WarnCorruptedData w)
                      else (Inr data, w)))))"

definition report_save :: "error \<Rightarrow> world \<Rightarrow> world" where
  "report_save e w = emit (if e = PermissionError then ErrPermissionWrite else ErrSave e) w"

text \<open>
  \<^verbatim>\<open>save_data\<close>: the text goes to the temporary file, which then replaces the storage file.
  A failure is printed and raised again; it leaves the temporary file as far as it got.
\<close>

definition save_data :: "env \<Rightarrow> json \<Rightarrow> world \<Rightarrow> (error + unit) \<times> world" where
  "save_data ev d w =
    (case save_fault ev of
       None \<Rightarrow> (Inr (), w\<lparr>store := Some (Dumped d), temp := None\<rparr>)
     | Some (MkdirFails e) \<Rightarrow> (Inl e, report_save e w)
     | Some (OpenFails e) \<Rightarrow> (Inl e, report_save e w)
     | Some (WriteFails n e) \<Rightarrow> (Inl e, report_save e (w\<lparr>temp := Some (Cut n d)\<rparr>))
     | Some (ReplaceFails e) \<Rightarrow> (Inl e, report_save e (w\<lparr>temp := Some (Dumped d)\<rparr>)))"

section \<open>core.py\<close>

text \<open>Lines 28 to 36 of \<^verbatim>\<open>add_task\<close>, on the loaded data: the new task and the changed data.\<close>

definition new_task :: "json \<Rightarrow> string \<Rightarrow> string \<Rightarrow> json" where
  "new_task nid description now =
     JObj [(''id'', nid), (''description'', JStr description),
           (''completed'', JBool False), (''created_at'', JStr now)]"

definition add_to :: "json \<Rightarrow> string \<Rightarrow> string \<Rightarrow> error + (json \<times> json)" where
  "add_to data description now =
     bind_err (get_item data ''next_id'') (\<lambda>nid.
     let task = new_task nid description now in
     bind_err (get_item data ''tasks'') (\<lambda>ts.
     bind_err (py_append ts task) (\<lambda>ts'.
     bind_err (set_item data ''tasks'' ts') (\<lambda>data1.
     bind_err (get_item data1 ''next_id'') (\<lambda>n.
     bind_err (py_add1 n) (\<lambda>n'.
     bind_err (set_item data1 ''next_id'' n') (\<lambda>data2.
     Inr (task, data2))))))))"

definition add_task :: "env \<Rightarrow> string \<Rightarrow> world \<Rightarrow> (error + json) \<times> world" where
  "add_task ev description w =
    (case load_data ev w of
       (Inl e, w1) \<Rightarrow> (Inl e, w1)
     | (Inr data, w1) \<Rightarrow>
        (case add_to data description (clock ev) of
           Inl e \<Rightarrow> (Inl e, w1)
         | Inr (task, data') \<Rightarrow>
            (case save_data ev data' w1 of
               (Inl e, w2) \<Rightarrow> (Inl e, w2)
             | (Inr u, w2) \<Rightarrow> (Inr task, w2))))"

definition list_tasks :: "env \<Rightarrow> world \<Rightarrow> (error + json) \<times> world" where
  "list_tasks ev w =
    (case load_data ev w of
       (Inl e, w1) \<Rightarrow> (Inl e, w1)
     | (Inr data, w1) \<Rightarrow> (get_item data ''tasks'', w1))"

text \<open>
  The loop of \<^verbatim>\<open>complete_task\<close> over the tasks: \<open>None\<close> when it ends without a match, else the
  tasks with the first match marked. The loop stops at the first match, so later elements
  are not looked at.
\<close>

fun complete_scan :: "json list \<Rightarrow> int \<Rightarrow> error + json list option" where
  "complete_scan [] i = Inr None"
| "complete_scan (t # ts) i =
     bind_err (get_item t ''id'') (\<lambda>v.
       if py_eq_int v i
       then bind_err (set_item t ''completed'' (JBool True)) (\<lambda>t'. Inr (Some (t' # ts)))
       else bind_err (complete_scan ts i) (\<lambda>r. Inr (map_option (\<lambda>ts'. t # ts') r)))"

text \<open>
  The task found is changed in place, inside the list that \<^verbatim>\<open>data["tasks"]\<close> holds, so the
  data saved is the loaded data with that list changed. A match needs an element that is a
  dictionary, which only the elements of a list can be.
\<close>

definition complete_in :: "json \<Rightarrow> int \<Rightarrow> error + json option" where
  "complete_in data i =
     bind_err (get_item data ''tasks'') (\<lambda>ts.
     bind_err (py_iter ts) (\<lambda>xs.
     bind_err (complete_scan xs i) (\<lambda>r.
       case r of
         None \<Rightarrow> Inr None
       | Some xs' \<Rightarrow> bind_err (set_item data ''tasks'' (JArr xs')) (\<lambda>data'. Inr (Some data')))))"

definition complete_task :: "env \<Rightarrow> int \<Rightarrow> world \<Rightarrow> (error + bool) \<times> world" where
  "complete_task ev i w =
    (case load_data ev w of
       (Inl e, w1) \<Rightarrow> (Inl e, w1)
     | (Inr data, w1) \<Rightarrow>
        (case complete_in data i of
           Inl e \<Rightarrow> (Inl e, w1)
         | Inr None \<Rightarrow> (Inr False, w1)
         | Inr (Some data') \<Rightarrow>
            (case save_data ev data' w1 of
               (Inl e, w2) \<Rightarrow> (Inl e, w2)
             | (Inr u, w2) \<Rightarrow> (Inr True, w2))))"

text \<open>The list comprehension of \<^verbatim>\<open>delete_task\<close>: every element is looked at.\<close>

fun delete_scan :: "json list \<Rightarrow> int \<Rightarrow> error + json list" where
  "delete_scan [] i = Inr []"
| "delete_scan (t # ts) i =
     bind_err (get_item t ''id'') (\<lambda>v.
     bind_err (delete_scan ts i) (\<lambda>r.
       Inr (if py_eq_int v i then r else t # r)))"

definition delete_in :: "json \<Rightarrow> int \<Rightarrow> error + json option" where
  "delete_in data i =
     bind_err (get_item data ''tasks'') (\<lambda>ts.
     bind_err (py_len ts) (\<lambda>initial_length.
     bind_err (py_iter ts) (\<lambda>xs.
     bind_err (delete_scan xs i) (\<lambda>xs'.
     bind_err (set_item data ''tasks'' (JArr xs')) (\<lambda>data'.
       if length xs' < initial_length then Inr (Some data') else Inr None)))))"

definition delete_task :: "env \<Rightarrow> int \<Rightarrow> world \<Rightarrow> (error + bool) \<times> world" where
  "delete_task ev i w =
    (case load_data ev w of
       (Inl e, w1) \<Rightarrow> (Inl e, w1)
     | (Inr data, w1) \<Rightarrow>
        (case delete_in data i of
           Inl e \<Rightarrow> (Inl e, w1)
         | Inr None \<Rightarrow> (Inr False, w1)
         | Inr (Some data') \<Rightarrow>
            (case save_data ev data' w1 of
               (Inl e, w2) \<Rightarrow> (Inl e, w2)
             | (Inr u, w2) \<Rightarrow> (Inr True, w2))))"

text \<open>The loop of \<^verbatim>\<open>get_task\<close>.\<close>

fun get_scan :: "json list \<Rightarrow> int \<Rightarrow> error + json option" where
  "get_scan [] i = Inr None"
| "get_scan (t # ts) i =
     bind_err (get_item t ''id'') (\<lambda>v.
       if py_eq_int v i then Inr (Some t) else get_scan ts i)"

definition get_task :: "env \<Rightarrow> int \<Rightarrow> world \<Rightarrow> (error + json option) \<times> world" where
  "get_task ev i w =
    (case load_data ev w of
       (Inl e, w1) \<Rightarrow> (Inl e, w1)
     | (Inr data, w1) \<Rightarrow>
        (bind_err (get_item data ''tasks'') (\<lambda>ts.
         bind_err (py_iter ts) (\<lambda>xs. get_scan xs i)), w1))"

section \<open>Well-formed documents\<close>

text \<open>
  The shape of a task and of the document in the persisted file: a task is a dictionary
  with an integer \<^verbatim>\<open>id\<close>, a string \<^verbatim>\<open>description\<close>, a boolean \<^verbatim>\<open>completed\<close> and a string
  \<^verbatim>\<open>created_at\<close>; the document is a dictionary with a list of tasks under \<^verbatim>\<open>tasks\<close> and an
  integer under \<^verbatim>\<open>next_id\<close>. The order of the keys is free.
\<close>

fun is_int :: "json \<Rightarrow> bool" where
  "is_int (JInt n) = True"
| "is_int _ = False"

fun is_str :: "json \<Rightarrow> bool" where
  "is_str (JStr s) = True"
| "is_str _ = False"

fun is_bool :: "json \<Rightarrow> bool" where
  "is_bool (JBool b) = True"
| "is_bool _ = False"

definition has_field :: "(string \<times> json) list \<Rightarrow> string \<Rightarrow> (json \<Rightarrow> bool) \<Rightarrow> bool" where
  "has_field kvs k P = (case map_of kvs k of None \<Rightarrow> False | Some v \<Rightarrow> P v)"

fun wf_task :: "json \<Rightarrow> bool" where
  "wf_task (JObj kvs) =
     (has_field kvs ''id'' is_int \<and> has_field kvs ''description'' is_str \<and>
      has_field kvs ''completed'' is_bool \<and> has_field kvs ''created_at'' is_str)"
| "wf_task _ = False"

fun is_task_list :: "json \<Rightarrow> bool" where
  "is_task_list (JArr ts) = list_all wf_task ts"
| "is_task_list _ = False"

fun wf_document :: "json \<Rightarrow> bool" where
  "wf_document (JObj kvs) = (has_field kvs ''tasks'' is_task_list \<and> has_field kvs ''next_id'' is_int)"
| "wf_document _ = False"

fun int_of :: "json \<Rightarrow> int" where
  "int_of (JInt n) = n"
| "int_of _ = 0"

fun list_of :: "json \<Rightarrow> json list" where
  "list_of (JArr xs) = xs"
| "list_of _ = []"

definition field :: "json \<Rightarrow> string \<Rightarrow> json" where
  "field d k = (case get_item d k of Inl e \<Rightarrow> JNull | Inr v \<Rightarrow> v)"

definition task_id :: "json \<Rightarrow> int" where
  "task_id t = int_of (field t ''id'')"

definition doc_tasks :: "json \<Rightarrow> json list" where
  "doc_tasks d = list_of (field d ''tasks'')"

definition doc_next_id :: "json \<Rightarrow> int" where
  "doc_next_id d = int_of (field d ''next_id'')"

definition mark_done :: "json \<Rightarrow> json" where
  "mark_done t = (case set_item t ''completed'' (JBool True) of Inl e \<Rightarrow> t | Inr t' \<Rightarrow> t')"

section \<open>Faults, and the environments and worlds of the examples\<close>

text \<open>The exception a failing save raises.\<close>

fun fault_error :: "save_fault \<Rightarrow> error" where
  "fault_error (MkdirFails e) = e"
| "fault_error (OpenFails e) = e"
| "fault_error (WriteFails n e) = e"
| "fault_error (ReplaceFails e) = e"

text \<open>
  Concrete environments and worlds for the examples: an environment in which no file
  operation fails, the world before the first call (no storage file), and a world whose
  storage file holds a given text.
\<close>

definition calm :: "string \<Rightarrow> env" where
  "calm now = \<lparr>read_fault = None, save_fault = None, clock = now,
               cut_load = (\<lambda>n v. JSONDecodeError)\<rparr>"

definition fresh :: world where
  "fresh = \<lparr>store = None, temp = None, out = []\<rparr>"

definition holding :: "file_text \<Rightarrow> world" where
  "holding txt = \<lparr>store = Some txt, temp = None, out = []\<rparr>"

definition task1 :: json where
  "task1 = JObj [(''id'', JInt 1), (''description'', JStr ''Buy groceries''),
                 (''completed'', JBool False), (''created_at'', JStr ''2024-01-01T00:00:00'')]"

definition doc1 :: json where
  "doc1 = JObj [(''tasks'', JArr [task1]), (''next_id'', JInt 2)]"

section \<open>The steps of a save\<close>

text \<open>
  The places of \<^verbatim>\<open>save_data\<close> between which the process can stop: before creating the
  parent directory, before opening the temporary file, while \<^verbatim>\<open>json.dump\<close> writes (with the
  number of characters that reached the file), before the rename, after it, and after an
  exception.
\<close>

datatype save_pc = AtMkdir | AtOpen | AtWrite nat | AtReplace | Saved | Raised error

text \<open>
  One step of \<^verbatim>\<open>save_data\<close> on the files. Opening the temporary file for writing empties it;
  each write extends it; the last write and the close leave the complete text in it;
  \<^verbatim>\<open>temp_file.replace(STORAGE_FILE)\<close> is one step, which puts the temporary file in the place
  of the storage file. How many characters the text has is not fixed here: the writing can
  be complete after any number of them.
\<close>

inductive save_step :: "env \<Rightarrow> json \<Rightarrow> save_pc \<times> world \<Rightarrow> save_pc \<times> world \<Rightarrow> bool"
  for ev :: env and d :: json where
  mkdir_done: "\<forall>e. save_fault ev \<noteq> Some (MkdirFails e) \<Longrightarrow>
     save_step ev d (AtMkdir, w) (AtOpen, w)"
| mkdir_fails: "save_fault ev = Some (MkdirFails e) \<Longrightarrow>
     save_step ev d (AtMkdir, w) (Raised e, report_save e w)"
| open_done: "\<forall>e. save_fault ev \<noteq> Some (OpenFails e) \<Longrightarrow>
     save_step ev d (AtOpen, w) (AtWrite 0, w\<lparr>temp := Some (Cut 0 d)\<rparr>)"
| open_fails: "save_fault ev = Some (OpenFails e) \<Longrightarrow>
     save_step ev d (AtOpen, w) (Raised e, report_save e w)"
| write_more: "\<forall>e. save_fault ev \<noteq> Some (WriteFails n e) \<Longrightarrow>
     save_step ev d (AtWrite n, w) (AtWrite (Suc n), w\<lparr>temp := Some (Cut (Suc n) d)\<rparr>)"
| write_fails: "save_fault ev = Some (WriteFails n e) \<Longrightarrow>
     save_step ev d (AtWrite n, w) (Raised e, report_save e w)"
| write_done: "\<forall>m e. save_fault ev \<noteq> Some (WriteFails m e) \<Longrightarrow>
     save_step ev d (AtWrite n, w) (AtReplace, w\<lparr>temp := Some (Dumped d)\<rparr>)"
| replace_done: "\<forall>e. save_fault ev \<noteq> Some (ReplaceFails e) \<Longrightarrow>
     save_step ev d (AtReplace, w) (Saved, w\<lparr>store := Some (Dumped d), temp := None\<rparr>)"
| replace_fails: "save_fault ev = Some (ReplaceFails e) \<Longrightarrow>
     save_step ev d (AtReplace, w) (Raised e, report_save e w)"

text \<open>What holds at each place of a save of \<open>d\<close> that started in the world \<open>w\<close>.\<close>

fun save_inv :: "env \<Rightarrow> json \<Rightarrow> world \<Rightarrow> save_pc \<times> world \<Rightarrow> bool" where
  "save_inv ev d w (AtMkdir, w') = (w' = w)"
| "save_inv ev d w (AtOpen, w') = (w' = w \<and> (\<forall>e. save_fault ev \<noteq> Some (MkdirFails e)))"
| "save_inv ev d w (AtWrite n, w') =
     (w' = w\<lparr>temp := Some (Cut n d)\<rparr> \<and>
      (\<forall>e. save_fault ev \<noteq> Some (MkdirFails e)) \<and> (\<forall>e. save_fault ev \<noteq> Some (OpenFails e)) \<and>
      (\<forall>m e. m < n \<longrightarrow> save_fault ev \<noteq> Some (WriteFails m e)))"
| "save_inv ev d w (AtReplace, w') =
     (w' = w\<lparr>temp := Some (Dumped d)\<rparr> \<and>
      (\<forall>e. save_fault ev \<noteq> Some (MkdirFails e)) \<and> (\<forall>e. save_fault ev \<noteq> Some (OpenFails e)) \<and>
      (\<forall>m e. save_fault ev \<noteq> Some (WriteFails m e)))"
| "save_inv ev d w (Saved, w') = (save_data ev d w = (Inr (), w'))"
| "save_inv ev d w (Raised e, w') = (save_data ev d w = (Inl e, w'))"

section \<open>Runs of calls and the invariant of the store\<close>

text \<open>
  A call of the task manager that can change the store, and a run of such calls, each in
  its own environment. The run collects the tasks that the successful calls of
  \<^verbatim>\<open>add_task\<close> return, in order.
\<close>

datatype call = Add string | Complete int | Delete int

fun exec :: "(env \<times> call) list \<Rightarrow> world \<Rightarrow> json list \<times> world" where
  "exec [] w = ([], w)"
| "exec ((ev, Add s) # cs) w =
     (case add_task ev s w of
        (Inl e, w') \<Rightarrow> exec cs w'
      | (Inr t, w') \<Rightarrow> (case exec cs w' of (ts, w'') \<Rightarrow> (t # ts, w'')))"
| "exec ((ev, Complete i) # cs) w = exec cs (snd (complete_task ev i w))"
| "exec ((ev, Delete i) # cs) w = exec cs (snd (delete_task ev i w))"

text \<open>The calls of \<^verbatim>\<open>add_task\<close> in a run, and the environments in which no file operation fails.\<close>

fun is_add :: "env \<times> call \<Rightarrow> bool" where
  "is_add (ev, Add s) = True"
| "is_add (ev, c) = False"

definition quiet :: "env \<Rightarrow> bool" where
  "quiet ev = (read_fault ev = None \<and> save_fault ev = None)"

text \<open>The document that the next call loads, when it can read the file.\<close>

definition current_doc :: "world \<Rightarrow> json" where
  "current_doc w = (case fst (load_data (calm []) w) of Inl e \<Rightarrow> get_default_data | Inr d \<Rightarrow> d)"

text \<open>The invariant of the data model: ids are unique and below \<^verbatim>\<open>next_id\<close>.\<close>

definition doc_inv :: "json \<Rightarrow> bool" where
  "doc_inv d = (wf_document d \<and> distinct (map task_id (doc_tasks d)) \<and>
                list_all (\<lambda>t. task_id t < doc_next_id d) (doc_tasks d))"

text \<open>
  The store between two calls: no storage file yet and the counter at 1, or a storage file
  that holds a document satisfying the invariant, with the counter at \<open>n\<close>.
\<close>

definition world_ok :: "int \<Rightarrow> world \<Rightarrow> bool" where
  "world_ok n w = (case store w of
                     None \<Rightarrow> n = 1
                   | Some txt \<Rightarrow> (case txt of Dumped d \<Rightarrow> doc_inv d \<and> doc_next_id d = n | _ \<Rightarrow> False))"

section \<open>Basic facts\<close>

lemma bind_err_Inl [simp]: "bind_err (Inl e) f = Inl e"
  by (simp add: bind_err_def)

lemma bind_err_Inr [simp]: "bind_err (Inr x) f = f x"
  by (simp add: bind_err_def)

lemma map_of_dict_set: "map_of (dict_set kvs k v) k' = (if k' = k then Some v else map_of kvs k')"
  by (induction kvs) auto

lemma keys_dict_set: "fst ` set (dict_set kvs k v) = insert k (fst ` set kvs)"
  by (induction kvs) auto

lemma is_int_conv: "is_int v \<longleftrightarrow> (\<exists>n. v = JInt n)"
  by (cases v) auto

lemma has_field_conv: "has_field kvs k P \<longleftrightarrow> (\<exists>v. map_of kvs k = Some v \<and> P v)"
  by (auto simp: has_field_def split: option.splits)

lemma wf_task_id: "wf_task t \<Longrightarrow> get_item t ''id'' = Inr (JInt (task_id t))"
  by (cases t) (auto simp: has_field_conv is_int_conv task_id_def field_def)

lemma wf_task_obj: "wf_task t \<Longrightarrow> \<exists>kvs. t = JObj kvs"
  by (cases t) auto

lemma map_of_in_keys: "map_of kvs k = Some v \<Longrightarrow> k \<in> fst ` set kvs"
  by (metis domI dom_map_of_conv_image_fst)

lemma wf_document_fields:
  assumes "wf_document d"
  shows "get_item d ''tasks'' = Inr (JArr (doc_tasks d))"
    and "get_item d ''next_id'' = Inr (JInt (doc_next_id d))"
    and "list_all wf_task (doc_tasks d)"
    and "is_dict d" and "has_key d ''tasks''" and "has_key d ''next_id''"
proof -
  obtain kvs where d: "d = JObj kvs" using assms by (cases d) auto
  from assms d obtain tv nv where tv: "map_of kvs ''tasks'' = Some tv" "is_task_list tv"
    and nv: "map_of kvs ''next_id'' = Some nv" "is_int nv"
    by (auto simp: has_field_conv)
  from tv(2) obtain ts where ts: "tv = JArr ts" "list_all wf_task ts" by (cases tv) auto
  from nv(2) obtain n where n: "nv = JInt n" by (auto simp: is_int_conv)
  show "get_item d ''tasks'' = Inr (JArr (doc_tasks d))"
    using d tv ts by (simp add: doc_tasks_def field_def)
  show "get_item d ''next_id'' = Inr (JInt (doc_next_id d))"
    using d nv n by (simp add: doc_next_id_def field_def)
  show "list_all wf_task (doc_tasks d)"
    using d tv ts by (simp add: doc_tasks_def field_def)
  show "is_dict d" using d by simp
  show "has_key d ''tasks''" using d tv(1) by (simp add: map_of_in_keys)
  show "has_key d ''next_id''" using d nv(1) by (simp add: map_of_in_keys)
qed

lemma wf_default: "wf_document get_default_data"
  by (simp add: get_default_data_def has_field_def)

lemma wf_task_mark: "wf_task t \<Longrightarrow> set_item t ''completed'' (JBool True) = Inr (mark_done t)"
  by (cases t) (auto simp: mark_done_def)

lemma complete_scan_miss:
  "list_all wf_task ts \<Longrightarrow> i \<notin> task_id ` set ts \<Longrightarrow> complete_scan ts i = Inr None"
  by (induction ts) (auto simp: wf_task_id)

lemma complete_scan_hit:
  "list_all wf_task (pre @ t # post) \<Longrightarrow> i \<notin> task_id ` set pre \<Longrightarrow> task_id t = i \<Longrightarrow>
   complete_scan (pre @ t # post) i = Inr (Some (pre @ mark_done t # post))"
  by (induction pre) (auto simp: wf_task_id wf_task_mark)

lemma delete_scan_wf:
  "list_all wf_task ts \<Longrightarrow> delete_scan ts i = Inr (filter (\<lambda>t. task_id t \<noteq> i) ts)"
  by (induction ts) (auto simp: wf_task_id)

lemma get_scan_wf:
  "list_all wf_task ts \<Longrightarrow> get_scan ts i = Inr (find (\<lambda>t. task_id t = i) ts)"
  by (induction ts) (auto simp: wf_task_id)

lemma emit_files [simp]: "store (emit m w) = store w" "temp (emit m w) = temp w"
  "out (emit m w) = out w @ [m]"
  by (simp_all add: emit_def)

lemma report_load_files [simp]:
  "store (report_load e w) = store w" "temp (report_load e w) = temp w"
  "out (report_load e w) = out w @ [if e = PermissionError then ErrPermissionRead else ErrLoad e]"
  by (simp_all add: report_load_def)

lemma load_data_files:
  "store (snd (load_data ev w)) = store w" "temp (snd (load_data ev w)) = temp w"
  by (auto simp: load_data_def split: option.splits sum.splits load_result.splits)

lemma resolves_conv: "resolves s \<longleftrightarrow> (\<exists>c. s = Some c \<and> c \<noteq> Unresolvable)"
  by (cases s rule: resolves.cases) auto

lemma load_data_missing:
  "stat_raises (read_fault ev) = None \<Longrightarrow> \<not> resolves (store w) \<Longrightarrow>
   load_data ev w = (Inr get_default_data, w)"
  by (simp add: load_data_def storage_exists_def)

lemma load_data_text:
  "read_fault ev = None \<Longrightarrow> store w = Some c \<Longrightarrow> c \<noteq> Unresolvable \<Longrightarrow>
   load_data ev w =
     (case json_load ev c of
        JSONDecodeError \<Rightarrow> (Inr get_default_data, emit WarnCorruptedJSON w)
      | Raises e \<Rightarrow> (Inl e, report_load e w)
      | Parsed data \<Rightarrow>
          if \<not> is_dict data \<or> \<not> has_key data ''tasks'' \<or> \<not> has_key data ''next_id''
          then (Inr get_default_data, emit WarnCorruptedData w)
          else (Inr data, w))"
  by (simp add: load_data_def storage_exists_def resolves_conv)

lemma load_data_stored:
  "read_fault ev = None \<Longrightarrow> store w = Some (Dumped v) \<Longrightarrow>
   is_dict v \<Longrightarrow> has_key v ''tasks'' \<Longrightarrow> has_key v ''next_id'' \<Longrightarrow>
   load_data ev w = (Inr v, w)"
  by (simp add: load_data_text)

lemma load_data_files':
  "load_data ev w = (r, w1) \<Longrightarrow> store w1 = store w \<and> temp w1 = temp w"
  using load_data_files[of ev w] by simp

lemma get_item_dict_set:
  "get_item (JObj (dict_set kvs k v)) k' = (if k' = k then Inr v else get_item (JObj kvs) k')"
  by (simp add: map_of_dict_set)

lemma field_set_item:
  "set_item d k v = Inr d' \<Longrightarrow> field d' k' = (if k' = k then v else field d k')"
  by (cases d) (auto simp: field_def map_of_dict_set)

lemma wf_set_item:
  assumes "wf_document d"
  shows "\<exists>d'. set_item d k v = Inr d'"
  using assms by (cases d) auto

lemma complete_in_miss:
  assumes "wf_document d" "i \<notin> task_id ` set (doc_tasks d)"
  shows "complete_in d i = Inr None"
  using assms wf_document_fields(1,3)[OF assms(1)]
  by (simp add: complete_in_def complete_scan_miss)

lemma complete_in_hit:
  assumes "wf_document d" "doc_tasks d = pre @ t # post" "i \<notin> task_id ` set pre" "task_id t = i"
  shows "\<exists>d'. complete_in d i = Inr (Some d') \<and>
           set_item d ''tasks'' (JArr (pre @ mark_done t # post)) = Inr d'"
proof -
  obtain d' where d': "set_item d ''tasks'' (JArr (pre @ mark_done t # post)) = Inr d'"
    using wf_set_item[OF assms(1)] by blast
  have "complete_scan (doc_tasks d) i = Inr (Some (pre @ mark_done t # post))"
    using wf_document_fields(3)[OF assms(1)] assms(2-4) complete_scan_hit by metis
  then show ?thesis
    using wf_document_fields(1)[OF assms(1)] d' by (simp add: complete_in_def)
qed

lemma filter_shrinks: "length (filter P xs) < length xs \<longleftrightarrow> (\<exists>x\<in>set xs. \<not> P x)"
  by (induction xs) (auto simp: less_Suc_eq_le)

lemma delete_in_wf:
  assumes "wf_document d"
  shows "\<exists>d'. set_item d ''tasks'' (JArr (filter (\<lambda>t. task_id t \<noteq> i) (doc_tasks d))) = Inr d' \<and>
          delete_in d i = Inr (if i \<in> task_id ` set (doc_tasks d) then Some d' else None)"
proof -
  let ?xs = "filter (\<lambda>t. task_id t \<noteq> i) (doc_tasks d)"
  obtain d' where d': "set_item d ''tasks'' (JArr ?xs) = Inr d'"
    using wf_set_item[OF assms(1)] by blast
  have len: "length ?xs < length (doc_tasks d) \<longleftrightarrow> i \<in> task_id ` set (doc_tasks d)"
    unfolding filter_shrinks by auto
  show ?thesis
    using wf_document_fields(1,3)[OF assms(1)] d' len
    by (simp add: delete_in_def delete_scan_wf)
qed

lemma get_task_wf:
  assumes "load_data ev w = (Inr d, w1)" "wf_document d"
  shows "get_task ev i w = (Inr (find (\<lambda>t. task_id t = i) (doc_tasks d)), w1)"
  using assms wf_document_fields(1,3)[OF assms(2)]
  by (simp add: get_task_def get_scan_wf)

section \<open>The storage layer\<close>




text \<open>
  Claim C8, as amended. An exception of \<^verbatim>\<open>STORAGE_FILE.exists()\<close>, a \<open>PermissionError\<close> for one,
  reaches the caller of \<^verbatim>\<open>load_data\<close>. When the storage file
  is there, an exception of \<^verbatim>\<open>open\<close> or of the read, and an exception of \<^verbatim>\<open>json.load\<close> other
  than \<^verbatim>\<open>JSONDecodeError\<close>, is printed and raised: the caller gets the exception, not the
  default document. When a step of \<^verbatim>\<open>save_data\<close> fails, the exception of that step is
  printed and raised, and the storage file is left as it was. But a storage path that does
  not resolve (\<^verbatim>\<open>os.stat\<close> fails with \<^verbatim>\<open>ELOOP\<close>, \<^verbatim>\<open>ENOTDIR\<close> or \<^verbatim>\<open>ENOENT\<close>) counts as a missing
  file: \<^verbatim>\<open>load_data\<close> then returns the default document and prints nothing.
\<close>

theorem storage_errors_surface:
  "(\<forall>e. read_fault ev = Some (ExistsRaises e) \<longrightarrow> load_data ev w = (Inl e, w)) \<and>
   (\<forall>e c. read_fault ev = Some (OpenRaises e) \<and> store w = Some c \<and> c \<noteq> Unresolvable \<longrightarrow>
      load_data ev w =
        (Inl e, w\<lparr>out := out w @ [if e = PermissionError then ErrPermissionRead else ErrLoad e]\<rparr>)) \<and>
   (\<forall>e c. read_fault ev = None \<and> store w = Some c \<and> c \<noteq> Unresolvable \<and>
        json_load ev c = Raises e \<longrightarrow>
      load_data ev w =
        (Inl e, w\<lparr>out := out w @ [if e = PermissionError then ErrPermissionRead else ErrLoad e]\<rparr>)) \<and>
   (stat_raises (read_fault ev) = None \<and> store w = Some Unresolvable \<longrightarrow>
      load_data ev w = (Inr get_default_data, w)) \<and>
   (\<forall>f. save_fault ev = Some f \<longrightarrow>
      fst (save_data ev d w) = Inl (fault_error f) \<and>
      store (snd (save_data ev d w)) = store w \<and>
      out (snd (save_data ev d w)) =
        out w @ [if fault_error f = PermissionError then ErrPermissionWrite
                 else ErrSave (fault_error f)])"
proof (intro conjI allI impI)
  fix e assume "read_fault ev = Some (ExistsRaises e)"
  then show "load_data ev w = (Inl e, w)"
    by (simp add: load_data_def storage_exists_def)
next
  fix e c assume "read_fault ev = Some (OpenRaises e) \<and> store w = Some c \<and> c \<noteq> Unresolvable"
  then show "load_data ev w =
        (Inl e, w\<lparr>out := out w @ [if e = PermissionError then ErrPermissionRead else ErrLoad e]\<rparr>)"
    by (simp add: load_data_def storage_exists_def resolves_conv report_load_def emit_def)
next
  fix e c assume "read_fault ev = None \<and> store w = Some c \<and> c \<noteq> Unresolvable \<and>
        json_load ev c = Raises e"
  then show "load_data ev w =
        (Inl e, w\<lparr>out := out w @ [if e = PermissionError then ErrPermissionRead else ErrLoad e]\<rparr>)"
    by (simp add: load_data_text report_load_def emit_def)
next
  assume "stat_raises (read_fault ev) = None \<and> store w = Some Unresolvable"
  then show "load_data ev w = (Inr get_default_data, w)"
    by (simp add: load_data_missing)
next
  fix f assume f: "save_fault ev = Some f"
  show "fst (save_data ev d w) = Inl (fault_error f)"
    using f by (cases f) (simp_all add: save_data_def)
  show "store (snd (save_data ev d w)) = store w"
    using f by (cases f) (simp_all add: save_data_def report_save_def)
  show "out (snd (save_data ev d w)) =
        out w @ [if fault_error f = PermissionError then ErrPermissionWrite
                 else ErrSave (fault_error f)]"
    using f by (cases f) (simp_all add: save_data_def report_save_def)
qed

theorem storage_errors_surface_witness:
  "load_data ((calm [])\<lparr>read_fault := Some (ExistsRaises PermissionError)\<rparr>)
     (holding (Dumped get_default_data)) =
     (Inl PermissionError, holding (Dumped get_default_data)) \<and>
   load_data ((calm [])\<lparr>read_fault := Some (OpenRaises PermissionError)\<rparr>)
     (holding (Dumped get_default_data)) =
     (Inl PermissionError,
      \<lparr>store = Some (Dumped get_default_data), temp = None, out = [ErrPermissionRead]\<rparr>) \<and>
   load_data (calm []) (holding (Other [CHR 0xFF] (Raises UnicodeDecodeError))) =
     (Inl UnicodeDecodeError,
      \<lparr>store = Some (Other [CHR 0xFF] (Raises UnicodeDecodeError)), temp = None,
       out = [ErrLoad UnicodeDecodeError]\<rparr>) \<and>
   load_data (calm []) (holding Unresolvable) = (Inr get_default_data, holding Unresolvable) \<and>
   fst (save_data ((calm [])\<lparr>save_fault := Some (ReplaceFails OSError)\<rparr>)
     get_default_data (holding (Dumped get_default_data))) = Inl OSError"
  using storage_errors_surface [of "(calm [])\<lparr>read_fault := Some (ExistsRaises PermissionError)\<rparr>"
      "holding (Dumped get_default_data)"]
    storage_errors_surface [of "(calm [])\<lparr>read_fault := Some (OpenRaises PermissionError)\<rparr>"
      "holding (Dumped get_default_data)"]
    storage_errors_surface [of "calm []" "holding (Other [CHR 0xFF] (Raises UnicodeDecodeError))"]
    storage_errors_surface [of "calm []" "holding Unresolvable"]
    storage_errors_surface [of "(calm [])\<lparr>save_fault := Some (ReplaceFails OSError)\<rparr>"
      "holding (Dumped get_default_data)" get_default_data]
  by (simp add: calm_def holding_def)

text \<open>
  The claim as it was stated fails on the code where the storage path does not resolve: the
  failure of \<^verbatim>\<open>os.stat\<close> is neither raised nor printed, and the caller gets the default
  document.
\<close>

theorem storage_errors_surface_counterexample:
  "load_data (calm []) (holding Unresolvable) = (Inr get_default_data, holding Unresolvable)"
  by (simp add: load_data_missing calm_def holding_def)

text \<open>
  Claim C6. For a well-formed document \<open>d\<close>, a save that does not fail followed by a load
  that can read the file returns \<open>d\<close> itself, and prints nothing.
\<close>

theorem save_load_round_trip:
  assumes "wf_document d" and "save_fault ev = None" and "read_fault ev' = None"
  shows "fst (save_data ev d w) = Inr () \<and>
         load_data ev' (snd (save_data ev d w)) = (Inr d, snd (save_data ev d w))"
  using assms wf_document_fields(4-6)[OF assms(1)]
  by (simp add: save_data_def load_data_stored)

theorem save_load_round_trip_witness:
  "load_data (calm []) (snd (save_data (calm []) get_default_data fresh)) =
     (Inr get_default_data, snd (save_data (calm []) get_default_data fresh))"
  using save_load_round_trip [of get_default_data "calm []" "calm []" fresh] wf_default
  by (simp add: calm_def)

section \<open>The task manager\<close>

lemma doc_fields_set_tasks:
  assumes "set_item d ''tasks'' (JArr xs) = Inr d'"
  shows "doc_tasks d' = xs" and "doc_next_id d' = doc_next_id d"
  using field_set_item[OF assms] by (simp_all add: doc_tasks_def doc_next_id_def)

lemma complete_task_miss:
  assumes "load_data ev w = (Inr d, w1)" "wf_document d" "i \<notin> task_id ` set (doc_tasks d)"
  shows "complete_task ev i w = (Inr False, w1)"
  using assms by (simp add: complete_task_def complete_in_miss)

lemma complete_task_hit:
  assumes "load_data ev w = (Inr d, w1)" "wf_document d" "save_fault ev = None"
    "doc_tasks d = pre @ t # post" "i \<notin> task_id ` set pre" "task_id t = i"
  shows "\<exists>d'. complete_task ev i w = (Inr True, w1\<lparr>store := Some (Dumped d'), temp := None\<rparr>) \<and>
          set_item d ''tasks'' (JArr (pre @ mark_done t # post)) = Inr d'"
proof -
  obtain d' where d': "complete_in d i = Inr (Some d')"
    "set_item d ''tasks'' (JArr (pre @ mark_done t # post)) = Inr d'"
    using complete_in_hit[OF assms(2,4,5,6)] by blast
  show ?thesis using assms(1,3) d' by (simp add: complete_task_def save_data_def)
qed

lemma delete_task_wf:
  assumes "load_data ev w = (Inr d, w1)" "wf_document d"
  shows "\<exists>d'. set_item d ''tasks'' (JArr (filter (\<lambda>t. task_id t \<noteq> i) (doc_tasks d))) = Inr d' \<and>
          delete_task ev i w =
            (if i \<in> task_id ` set (doc_tasks d)
             then (case save_data ev d' w1 of (Inl e, w2) \<Rightarrow> (Inl e, w2) | (Inr u, w2) \<Rightarrow> (Inr True, w2))
             else (Inr False, w1))"
proof -
  obtain d' where d': "set_item d ''tasks'' (JArr (filter (\<lambda>t. task_id t \<noteq> i) (doc_tasks d))) = Inr d'"
    "delete_in d i = Inr (if i \<in> task_id ` set (doc_tasks d) then Some d' else None)"
    using delete_in_wf[OF assms(2)] by blast
  show ?thesis using assms(1) d' by (auto simp: delete_task_def)
qed

lemma mark_done_fields:
  assumes "wf_task t"
  shows "field (mark_done t) k = (if k = ''completed'' then JBool True else field t k)"
  using field_set_item[OF wf_task_mark[OF assms]] by simp

text \<open>
  Claim C3. Let the load succeed with a well-formed document \<open>d\<close>. If no task of \<open>d\<close> has the
  id \<open>i\<close> (zero, negative and never assigned ids included), \<^verbatim>\<open>complete_task\<close> returns
  \<open>False\<close> without saving: the storage file and the temporary file are what they were
  before the call. If the tasks are \<open>pre @ t # post\<close> with \<open>t\<close> the first task whose id is
  \<open>i\<close>, and the save does not fail, it returns \<open>True\<close> and the storage file holds the
  document with \<open>t\<close> replaced, at its place, by \<open>t\<close> with \<^verbatim>\<open>completed\<close> set to \<open>True\<close>; the
  other fields of \<open>t\<close>, the other tasks and \<^verbatim>\<open>next_id\<close> are unchanged.
\<close>

theorem complete_task_spec:
  assumes "load_data ev w = (Inr d, w1)" and "wf_document d"
  shows "(i \<notin> task_id ` set (doc_tasks d) \<longrightarrow>
            complete_task ev i w = (Inr False, w1) \<and> store w1 = store w \<and> temp w1 = temp w) \<and>
         (\<forall>pre t post.
            doc_tasks d = pre @ t # post \<and> i \<notin> task_id ` set pre \<and> task_id t = i \<and>
            save_fault ev = None \<longrightarrow>
            (\<exists>d'. complete_task ev i w =
                     (Inr True, w1\<lparr>store := Some (Dumped d'), temp := None\<rparr>) \<and>
                   set_item d ''tasks'' (JArr (pre @ mark_done t # post)) = Inr d' \<and>
                   doc_tasks d' = pre @ mark_done t # post \<and>
                   doc_next_id d' = doc_next_id d \<and>
                   field (mark_done t) ''completed'' = JBool True \<and>
                   (\<forall>k. k \<noteq> ''completed'' \<longrightarrow> field (mark_done t) k = field t k)))"
proof (intro conjI impI allI)
  assume "i \<notin> task_id ` set (doc_tasks d)"
  then show "complete_task ev i w = (Inr False, w1)"
    using assms by (rule_tac complete_task_miss)
  show "store w1 = store w" "temp w1 = temp w"
    using load_data_files'[OF assms(1)] by simp_all
next
  fix pre t post
  assume h: "doc_tasks d = pre @ t # post \<and> i \<notin> task_id ` set pre \<and> task_id t = i \<and>
            save_fault ev = None"
  then obtain d' where d':
    "complete_task ev i w = (Inr True, w1\<lparr>store := Some (Dumped d'), temp := None\<rparr>)"
    "set_item d ''tasks'' (JArr (pre @ mark_done t # post)) = Inr d'"
    using complete_task_hit[OF assms, of pre t post i] by blast
  have "wf_task t"
    using wf_document_fields(3)[OF assms(2)] h by simp
  then have "field (mark_done t) ''completed'' = JBool True"
    "\<forall>k. k \<noteq> ''completed'' \<longrightarrow> field (mark_done t) k = field t k"
    by (simp_all add: mark_done_fields)
  then show "\<exists>d'. complete_task ev i w =
                     (Inr True, w1\<lparr>store := Some (Dumped d'), temp := None\<rparr>) \<and>
                   set_item d ''tasks'' (JArr (pre @ mark_done t # post)) = Inr d' \<and>
                   doc_tasks d' = pre @ mark_done t # post \<and>
                   doc_next_id d' = doc_next_id d \<and>
                   field (mark_done t) ''completed'' = JBool True \<and>
                   (\<forall>k. k \<noteq> ''completed'' \<longrightarrow> field (mark_done t) k = field t k)"
    using d' doc_fields_set_tasks[OF d'(2)] by blast
qed

lemma load_holding:
  "is_dict v \<Longrightarrow> has_key v ''tasks'' \<Longrightarrow> has_key v ''next_id'' \<Longrightarrow>
   load_data (calm now) (holding (Dumped v)) = (Inr v, holding (Dumped v))"
  by (rule load_data_stored) (simp_all add: calm_def holding_def)

lemma load_doc1: "load_data (calm now) (holding (Dumped doc1)) = (Inr doc1, holding (Dumped doc1))"
  by (rule load_holding) (simp_all add: doc1_def)

lemma wf_doc1: "wf_document doc1"
  by (simp add: doc1_def task1_def has_field_def)

lemma doc1_tasks: "doc_tasks doc1 = [task1]" "task_id task1 = 1" "doc_next_id doc1 = 2"
  by (simp_all add: doc1_def task1_def doc_tasks_def doc_next_id_def task_id_def field_def)

lemma doc1_set_tasks:
  "set_item doc1 ''tasks'' v = Inr (JObj [(''tasks'', v), (''next_id'', JInt 2)])"
  by (simp add: doc1_def)

lemma holding_upd: "(holding t)\<lparr>store := Some t', temp := None\<rparr> = holding t'"
  by (simp add: holding_def)

lemma fresh_upd: "fresh\<lparr>store := Some t', temp := None\<rparr> = holding t'"
  by (simp add: holding_def fresh_def)

lemma default_fields: "doc_tasks get_default_data = []" "doc_next_id get_default_data = 1"
  by (simp_all add: get_default_data_def doc_tasks_def doc_next_id_def field_def)

lemma default_set_tasks:
  "set_item get_default_data ''tasks'' v = Inr (JObj [(''tasks'', v), (''next_id'', JInt 1)])"
  by (simp add: get_default_data_def)

lemma load_fresh: "load_data (calm now) fresh = (Inr get_default_data, fresh)"
  by (rule load_data_missing) (simp_all add: calm_def fresh_def)

lemma calm_simps: "save_fault (calm now) = None" "read_fault (calm now) = None" "clock (calm now) = now"
  by (simp_all add: calm_def)

theorem complete_task_spec_witness:
  "complete_task (calm []) 999 (holding (Dumped doc1)) = (Inr False, holding (Dumped doc1)) \<and>
   complete_task (calm []) 1 (holding (Dumped doc1)) =
     (Inr True, holding (Dumped (JObj [(''tasks'', JArr [mark_done task1]), (''next_id'', JInt 2)]))) \<and>
   field (mark_done task1) ''completed'' = JBool True"
proof -
  note a = complete_task_spec [OF load_doc1 [of "[]"] wf_doc1, where i = 999, THEN conjunct1]
  note b = complete_task_spec [OF load_doc1 [of "[]"] wf_doc1, where i = 1, THEN conjunct2, rule_format,
      of "[]" task1 "[]"]
  have c: "save_fault (calm []) = None" by (simp add: calm_def)
  from a have "complete_task (calm []) 999 (holding (Dumped doc1)) = (Inr False, holding (Dumped doc1))"
    by (simp add: doc1_tasks)
  moreover from b c have "complete_task (calm []) 1 (holding (Dumped doc1)) =
     (Inr True, holding (Dumped (JObj [(''tasks'', JArr [mark_done task1]), (''next_id'', JInt 2)])))
     \<and> field (mark_done task1) ''completed'' = JBool True"
    by (auto simp: doc1_tasks doc1_set_tasks holding_upd)
  ultimately show ?thesis by simp
qed

text \<open>
  Claim C4. Let the load succeed with a well-formed document \<open>d\<close>. If no task has the id
  \<open>i\<close>, \<^verbatim>\<open>delete_task\<close> returns \<open>False\<close> without saving, and the storage file and the
  temporary file are what they were. If some task has the id \<open>i\<close> and the save does not
  fail, it returns \<open>True\<close> and the storage file holds the document whose tasks are those of
  \<open>d\<close> with an id other than \<open>i\<close>, in the order they had; \<^verbatim>\<open>next_id\<close> is unchanged.
\<close>

theorem delete_task_spec:
  assumes "load_data ev w = (Inr d, w1)" and "wf_document d"
  shows "(i \<notin> task_id ` set (doc_tasks d) \<longrightarrow>
            delete_task ev i w = (Inr False, w1) \<and> store w1 = store w \<and> temp w1 = temp w) \<and>
         (i \<in> task_id ` set (doc_tasks d) \<and> save_fault ev = None \<longrightarrow>
            (\<exists>d'. delete_task ev i w =
                     (Inr True, w1\<lparr>store := Some (Dumped d'), temp := None\<rparr>) \<and>
                   set_item d ''tasks'' (JArr (filter (\<lambda>t. task_id t \<noteq> i) (doc_tasks d))) = Inr d' \<and>
                   doc_tasks d' = filter (\<lambda>t. task_id t \<noteq> i) (doc_tasks d) \<and>
                   doc_next_id d' = doc_next_id d))"
proof -
  obtain d' where d':
    "set_item d ''tasks'' (JArr (filter (\<lambda>t. task_id t \<noteq> i) (doc_tasks d))) = Inr d'"
    "delete_task ev i w =
            (if i \<in> task_id ` set (doc_tasks d)
             then (case save_data ev d' w1 of (Inl e, w2) \<Rightarrow> (Inl e, w2) | (Inr u, w2) \<Rightarrow> (Inr True, w2))
             else (Inr False, w1))"
    using delete_task_wf[OF assms] by blast
  have files: "store w1 = store w" "temp w1 = temp w"
    using load_data_files'[OF assms(1)] by simp_all
  have hit: "save_fault ev = None \<Longrightarrow> i \<in> task_id ` set (doc_tasks d) \<Longrightarrow>
    delete_task ev i w = (Inr True, w1\<lparr>store := Some (Dumped d'), temp := None\<rparr>)"
    using d'(2) by (simp add: save_data_def)
  show ?thesis
    using d' files hit doc_fields_set_tasks[OF d'(1)] by auto
qed

theorem delete_task_spec_witness:
  "delete_task (calm []) 0 (holding (Dumped doc1)) = (Inr False, holding (Dumped doc1)) \<and>
   delete_task (calm []) 1 (holding (Dumped doc1)) =
     (Inr True, holding (Dumped (JObj [(''tasks'', JArr []), (''next_id'', JInt 2)])))"
proof -
  note a = delete_task_spec [OF load_doc1 [of "[]"] wf_doc1, where i = 0, THEN conjunct1]
  note b = delete_task_spec [OF load_doc1 [of "[]"] wf_doc1, where i = 1, THEN conjunct2]
  have c: "save_fault (calm []) = None" by (simp add: calm_def)
  from a have "delete_task (calm []) 0 (holding (Dumped doc1)) = (Inr False, holding (Dumped doc1))"
    by (simp add: doc1_tasks)
  moreover from b c have "delete_task (calm []) 1 (holding (Dumped doc1)) =
     (Inr True, holding (Dumped (JObj [(''tasks'', JArr []), (''next_id'', JInt 2)])))"
    by (auto simp: doc1_tasks doc1_set_tasks holding_upd)
  ultimately show ?thesis by simp
qed

lemma find_task_conv:
  "(\<exists>t. find (\<lambda>t. task_id t = i) ts = Some t) \<longleftrightarrow> i \<in> task_id ` set ts"
  by (induction ts) auto

text \<open>
  Claim C10. On the same stored well-formed document, with a save that does not fail,
  \<^verbatim>\<open>get_task\<close> returns a task exactly when \<^verbatim>\<open>complete_task\<close> returns \<open>True\<close>, and exactly
  when \<^verbatim>\<open>delete_task\<close> returns \<open>True\<close>; none of the three raises.
\<close>

theorem lookups_agree:
  assumes "load_data ev w = (Inr d, w1)" and "wf_document d" and "save_fault ev = None"
  shows "((\<exists>t. fst (get_task ev i w) = Inr (Some t)) \<longleftrightarrow> fst (complete_task ev i w) = Inr True) \<and>
         ((\<exists>t. fst (get_task ev i w) = Inr (Some t)) \<longleftrightarrow> fst (delete_task ev i w) = Inr True) \<and>
         (\<exists>r. fst (get_task ev i w) = Inr r) \<and>
         (\<exists>b. fst (complete_task ev i w) = Inr b) \<and>
         (\<exists>b. fst (delete_task ev i w) = Inr b)"
proof -
  let ?ids = "task_id ` set (doc_tasks d)"
  have g: "fst (get_task ev i w) = Inr (find (\<lambda>t. task_id t = i) (doc_tasks d))"
    using get_task_wf[OF assms(1,2)] by simp
  have gi: "(\<exists>t. fst (get_task ev i w) = Inr (Some t)) \<longleftrightarrow> i \<in> ?ids"
    using g find_task_conv[of i "doc_tasks d"] by simp
  have c: "fst (complete_task ev i w) = Inr (i \<in> ?ids)"
  proof (cases "i \<in> ?ids")
    case True
    then have "\<exists>x\<in>set (doc_tasks d). task_id x = i" by auto
    from split_list_first_prop[OF this]
    obtain pre t post where p: "doc_tasks d = pre @ t # post" "task_id t = i"
      "\<forall>y\<in>set pre. task_id y \<noteq> i"
      by blast
    have "i \<notin> task_id ` set pre" using p(3) by auto
    from complete_task_hit[OF assms p(1) this p(2)]
    obtain d' where "complete_task ev i w =
        (Inr True, w1\<lparr>store := Some (Dumped d'), temp := None\<rparr>)"
      by blast
    then show ?thesis using True by simp
  next
    case False
    then show ?thesis using complete_task_miss[OF assms(1,2)] by simp
  qed
  have dl: "fst (delete_task ev i w) = Inr (i \<in> ?ids)"
    using delete_task_wf[OF assms(1,2), of i] assms(3) by (auto simp: save_data_def)
  show ?thesis using g gi c dl by simp
qed

theorem lookups_agree_witness:
  "fst (get_task (calm []) 1 (holding (Dumped doc1))) = Inr (Some task1) \<and>
   fst (complete_task (calm []) 1 (holding (Dumped doc1))) = Inr True \<and>
   fst (delete_task (calm []) 1 (holding (Dumped doc1))) = Inr True"
proof -
  have g: "fst (get_task (calm []) 1 (holding (Dumped doc1))) = Inr (Some task1)"
    using get_task_wf [OF load_doc1 [of "[]"] wf_doc1, where i = 1] by (simp add: doc1_tasks)
  have c: "save_fault (calm []) = None" by (simp add: calm_def)
  show ?thesis
    using lookups_agree [OF load_doc1 [of "[]"] wf_doc1 c, where i = 1] g by simp
qed

lemma wf_new_task: "wf_task (new_task (JInt n) description now)"
  by (simp add: new_task_def has_field_def)

lemma add_to_wf:
  assumes "wf_document d"
  shows "\<exists>d1 d'. add_to d description now = Inr (new_task (JInt (doc_next_id d)) description now, d') \<and>
          set_item d ''tasks''
            (JArr (doc_tasks d @ [new_task (JInt (doc_next_id d)) description now])) = Inr d1 \<and>
          set_item d1 ''next_id'' (JInt (doc_next_id d + 1)) = Inr d' \<and>
          doc_tasks d' = doc_tasks d @ [new_task (JInt (doc_next_id d)) description now] \<and>
          doc_next_id d' = doc_next_id d + 1 \<and> wf_document d' \<and>
          (\<forall>k. k \<noteq> ''tasks'' \<and> k \<noteq> ''next_id'' \<longrightarrow> field d' k = field d k)"
proof -
  let ?task = "new_task (JInt (doc_next_id d)) description now"
  obtain kvs where d: "d = JObj kvs" using assms by (cases d) auto
  have t: "map_of kvs ''tasks'' = Some (JArr (doc_tasks d))"
    and n: "map_of kvs ''next_id'' = Some (JInt (doc_next_id d))"
    using wf_document_fields(1,2)[OF assms] d by (auto split: option.splits)
  let ?d' = "JObj (dict_set (dict_set kvs ''tasks'' (JArr (doc_tasks d @ [?task])))
                     ''next_id'' (JInt (doc_next_id d + 1)))"
  have 1: "add_to d description now = Inr (?task, ?d')"
    using d t n by (simp add: add_to_def Let_def map_of_dict_set)
  have 2: "doc_tasks ?d' = doc_tasks d @ [?task]" "doc_next_id ?d' = doc_next_id d + 1"
    by (simp_all add: doc_tasks_def doc_next_id_def field_def map_of_dict_set)
  have 3: "wf_document ?d'"
    using wf_document_fields(3)[OF assms]
    by (simp add: has_field_def map_of_dict_set wf_new_task)
  have 4: "\<forall>k. k \<noteq> ''tasks'' \<and> k \<noteq> ''next_id'' \<longrightarrow> field ?d' k = field d k"
    using d by (simp add: field_def map_of_dict_set)
  have 5: "set_item d ''tasks'' (JArr (doc_tasks d @ [?task])) =
      Inr (JObj (dict_set kvs ''tasks'' (JArr (doc_tasks d @ [?task]))))"
    using d by simp
  have 6: "set_item (JObj (dict_set kvs ''tasks'' (JArr (doc_tasks d @ [?task]))))
      ''next_id'' (JInt (doc_next_id d + 1)) = Inr ?d'"
    by simp
  show ?thesis using 1 2 3 4 5 6 by blast
qed

text \<open>
  Claim C2. Let the load succeed with a well-formed document \<open>d\<close> and let the save not fail.
  For every description, the empty one included, \<^verbatim>\<open>add_task\<close> returns the task whose
  \<^verbatim>\<open>id\<close> is the \<^verbatim>\<open>next_id\<close> of \<open>d\<close>, whose \<^verbatim>\<open>description\<close> is the string given, whose
  \<^verbatim>\<open>completed\<close> is \<open>False\<close> and whose \<^verbatim>\<open>created_at\<close> is the time of the call; after the call
  the storage file holds \<open>d\<close> with that task appended to the end of \<^verbatim>\<open>tasks\<close> and with
  \<^verbatim>\<open>next_id\<close> increased by exactly 1, everything else unchanged.
\<close>

theorem add_task_spec:
  assumes "load_data ev w = (Inr d, w1)" and "wf_document d" and "save_fault ev = None"
  shows "\<exists>d1 d'. add_task ev description w =
                (Inr (JObj [(''id'', JInt (doc_next_id d)), (''description'', JStr description),
                            (''completed'', JBool False), (''created_at'', JStr (clock ev))]),
                 w1\<lparr>store := Some (Dumped d'), temp := None\<rparr>) \<and>
              set_item d ''tasks'' (JArr (doc_tasks d @
                [JObj [(''id'', JInt (doc_next_id d)), (''description'', JStr description),
                       (''completed'', JBool False), (''created_at'', JStr (clock ev))]])) = Inr d1 \<and>
              set_item d1 ''next_id'' (JInt (doc_next_id d + 1)) = Inr d' \<and>
              doc_tasks d' = doc_tasks d @
                [JObj [(''id'', JInt (doc_next_id d)), (''description'', JStr description),
                       (''completed'', JBool False), (''created_at'', JStr (clock ev))]] \<and>
              doc_next_id d' = doc_next_id d + 1 \<and> wf_document d' \<and>
              (\<forall>k. k \<noteq> ''tasks'' \<and> k \<noteq> ''next_id'' \<longrightarrow> field d' k = field d k)"
proof -
  obtain d1 d' where d':
    "add_to d description (clock ev) = Inr (new_task (JInt (doc_next_id d)) description (clock ev), d')"
    "set_item d ''tasks''
       (JArr (doc_tasks d @ [new_task (JInt (doc_next_id d)) description (clock ev)])) = Inr d1"
    "set_item d1 ''next_id'' (JInt (doc_next_id d + 1)) = Inr d'"
    "doc_tasks d' = doc_tasks d @ [new_task (JInt (doc_next_id d)) description (clock ev)]"
    "doc_next_id d' = doc_next_id d + 1" "wf_document d'"
    "\<forall>k. k \<noteq> ''tasks'' \<and> k \<noteq> ''next_id'' \<longrightarrow> field d' k = field d k"
    using add_to_wf[OF assms(2)] by blast
  have "add_task ev description w =
      (Inr (new_task (JInt (doc_next_id d)) description (clock ev)),
       w1\<lparr>store := Some (Dumped d'), temp := None\<rparr>)"
    using assms(1,3) d'(1) by (simp add: add_task_def save_data_def)
  then show ?thesis using d'(2-7) unfolding new_task_def by blast
qed

theorem add_task_spec_witness:
  "add_task (calm ''now'') [] fresh =
     (Inr (JObj [(''id'', JInt 1), (''description'', JStr []),
                 (''completed'', JBool False), (''created_at'', JStr ''now'')]),
      holding (Dumped (JObj [(''tasks'',
         JArr [JObj [(''id'', JInt 1), (''description'', JStr []),
                 (''completed'', JBool False), (''created_at'', JStr ''now'')]]),
         (''next_id'', JInt 2)])))"
  using add_task_spec [OF load_fresh [of "''now''"] wf_default calm_simps(1), where description = "[]"]
  by (auto simp: default_fields default_set_tasks fresh_upd calm_simps)

section \<open>Atomic replacement of the storage file\<close>

lemma report_save_files [simp]:
  "store (report_save e w) = store w" "temp (report_save e w) = temp w"
  by (simp_all add: report_save_def)

lemma save_fault_none:
  assumes "\<forall>e. f \<noteq> Some (MkdirFails e)" "\<forall>e. f \<noteq> Some (OpenFails e)"
    "\<forall>m e. f \<noteq> Some (WriteFails m e)" "\<forall>e. f \<noteq> Some (ReplaceFails e)"
  shows "f = None"
proof (cases f)
  case None then show ?thesis .
next
  case (Some x) with assms show ?thesis by (cases x) auto
qed

lemma save_inv_step:
  assumes "save_step ev d c c'" "save_inv ev d w c"
  shows "save_inv ev d w c'"
  using assms
proof (induction rule: save_step.induct)
  case (write_more n w0)
  then show ?case by (auto simp: less_Suc_eq)
next
  case (replace_done w0)
  then have "save_fault ev = None" by (auto intro: save_fault_none)
  with replace_done show ?case by (simp add: save_data_def)
qed (auto simp: save_data_def)

lemma save_inv_reach:
  assumes "rtranclp (save_step ev d) (AtMkdir, w) c"
  shows "save_inv ev d w c"
  using assms
proof (induction rule: rtranclp_induct)
  case base show ?case by simp
next
  case (step y z) then show ?case using save_inv_step by blast
qed

lemma save_inv_store:
  assumes "save_inv ev d w (pc, w')"
  shows "if pc = Saved then store w' = Some (Dumped d) else store w' = store w"
  using assms
  by (cases pc) (auto simp: save_data_def split: option.splits save_fault.splits)

lemma step_open:
  "\<forall>e. save_fault ev \<noteq> Some (OpenFails e) \<Longrightarrow> w' = w\<lparr>temp := Some (Cut 0 d)\<rparr> \<Longrightarrow>
   save_step ev d (AtOpen, w) (AtWrite 0, w')"
  by (simp add: open_done)

lemma step_write:
  "\<forall>e. save_fault ev \<noteq> Some (WriteFails n e) \<Longrightarrow> w' = w\<lparr>temp := Some (Cut (Suc n) d)\<rparr> \<Longrightarrow>
   save_step ev d (AtWrite n, w) (AtWrite (Suc n), w')"
  by (simp add: write_more)

lemma step_close:
  "\<forall>m e. save_fault ev \<noteq> Some (WriteFails m e) \<Longrightarrow> w' = w\<lparr>temp := Some (Dumped d)\<rparr> \<Longrightarrow>
   save_step ev d (AtWrite n, w) (AtReplace, w')"
  by (simp add: write_done)

lemma step_replace:
  "\<forall>e. save_fault ev \<noteq> Some (ReplaceFails e) \<Longrightarrow>
   w' = w\<lparr>store := Some (Dumped d), temp := None\<rparr> \<Longrightarrow>
   save_step ev d (AtReplace, w) (Saved, w')"
  by (simp add: replace_done)

lemma save_reaches_end:
  "rtranclp (save_step ev d) (AtMkdir, w)
     (case fst (save_data ev d w) of Inl e \<Rightarrow> Raised e | Inr u \<Rightarrow> Saved, snd (save_data ev d w))"
proof (cases "save_fault ev")
  case None
  have "save_step ev d (AtMkdir, w) (AtOpen, w)" using None by (auto intro: mkdir_done)
  moreover have "save_step ev d (AtOpen, w) (AtWrite 0, w\<lparr>temp := Some (Cut 0 d)\<rparr>)"
    using None by (intro step_open) auto
  moreover have "save_step ev d (AtWrite 0, w\<lparr>temp := Some (Cut 0 d)\<rparr>)
      (AtReplace, w\<lparr>temp := Some (Dumped d)\<rparr>)"
    using None by (intro step_close) auto
  moreover have "save_step ev d (AtReplace, w\<lparr>temp := Some (Dumped d)\<rparr>)
      (Saved, w\<lparr>store := Some (Dumped d), temp := None\<rparr>)"
    using None by (intro step_replace) auto
  ultimately have "rtranclp (save_step ev d) (AtMkdir, w)
      (Saved, w\<lparr>store := Some (Dumped d), temp := None\<rparr>)"
    by (meson rtranclp.rtrancl_into_rtrancl rtranclp.rtrancl_refl)
  then show ?thesis using None by (simp add: save_data_def)
next
  case (Some f)
  show ?thesis
  proof (cases f)
    case (MkdirFails e)
    have "save_step ev d (AtMkdir, w) (Raised e, report_save e w)"
      using Some MkdirFails by (auto intro: mkdir_fails)
    then show ?thesis using Some MkdirFails by (simp add: save_data_def)
  next
    case (OpenFails e)
    have "save_step ev d (AtMkdir, w) (AtOpen, w)" using Some OpenFails by (auto intro: mkdir_done)
    moreover have "save_step ev d (AtOpen, w) (Raised e, report_save e w)"
      using Some OpenFails by (auto intro: open_fails)
    ultimately have "rtranclp (save_step ev d) (AtMkdir, w) (Raised e, report_save e w)"
      by (meson rtranclp.rtrancl_into_rtrancl rtranclp.rtrancl_refl)
    then show ?thesis using Some OpenFails by (simp add: save_data_def)
  next
    case (WriteFails n e)
    have a: "save_step ev d (AtMkdir, w) (AtOpen, w)" using Some WriteFails by (auto intro: mkdir_done)
    have b: "save_step ev d (AtOpen, w) (AtWrite 0, w\<lparr>temp := Some (Cut 0 d)\<rparr>)"
      using Some WriteFails by (intro step_open) auto
    have c: "k \<le> n \<Longrightarrow> rtranclp (save_step ev d) (AtMkdir, w) (AtWrite k, w\<lparr>temp := Some (Cut k d)\<rparr>)" for k
    proof (induction k)
      case 0
      show ?case using a b by (meson rtranclp.rtrancl_into_rtrancl rtranclp.rtrancl_refl)
    next
      case (Suc k)
      then have "rtranclp (save_step ev d) (AtMkdir, w) (AtWrite k, w\<lparr>temp := Some (Cut k d)\<rparr>)"
        by simp
      moreover have "save_step ev d (AtWrite k, w\<lparr>temp := Some (Cut k d)\<rparr>)
          (AtWrite (Suc k), w\<lparr>temp := Some (Cut (Suc k) d)\<rparr>)"
        using Some WriteFails Suc.prems by (intro step_write) auto
      ultimately show ?case by (simp add: rtranclp.rtrancl_into_rtrancl)
    qed
    have "save_step ev d (AtWrite n, w\<lparr>temp := Some (Cut n d)\<rparr>)
        (Raised e, report_save e (w\<lparr>temp := Some (Cut n d)\<rparr>))"
      using Some WriteFails by (auto intro: write_fails)
    with c[of n] have "rtranclp (save_step ev d) (AtMkdir, w)
        (Raised e, report_save e (w\<lparr>temp := Some (Cut n d)\<rparr>))"
      by (simp add: rtranclp.rtrancl_into_rtrancl)
    then show ?thesis using Some WriteFails by (simp add: save_data_def)
  next
    case (ReplaceFails e)
    have "save_step ev d (AtMkdir, w) (AtOpen, w)" using Some ReplaceFails by (auto intro: mkdir_done)
    moreover have "save_step ev d (AtOpen, w) (AtWrite 0, w\<lparr>temp := Some (Cut 0 d)\<rparr>)"
      using Some ReplaceFails by (intro step_open) auto
    moreover have "save_step ev d (AtWrite 0, w\<lparr>temp := Some (Cut 0 d)\<rparr>)
        (AtReplace, w\<lparr>temp := Some (Dumped d)\<rparr>)"
      using Some ReplaceFails by (intro step_close) auto
    moreover have "save_step ev d (AtReplace, w\<lparr>temp := Some (Dumped d)\<rparr>)
        (Raised e, report_save e (w\<lparr>temp := Some (Dumped d)\<rparr>))"
      using Some ReplaceFails by (auto intro: replace_fails)
    ultimately have "rtranclp (save_step ev d) (AtMkdir, w)
        (Raised e, report_save e (w\<lparr>temp := Some (Dumped d)\<rparr>))"
      by (meson rtranclp.rtrancl_into_rtrancl rtranclp.rtrancl_refl)
    then show ?thesis using Some ReplaceFails by (simp add: save_data_def)
  qed
qed

text \<open>
  Claim C9. A save goes through the temporary file: the complete text is in the temporary
  file before the rename, and the rename, one step, puts it in the place of the storage
  file. Wherever the save stops (after any number of steps, a failure included), the
  storage file holds either what it held before the save or the complete new text; it never
  holds a text cut short. The steps end where \<^verbatim>\<open>save_data\<close> ends: with the new text stored,
  or with the exception of the failing step and the storage file untouched.
\<close>

theorem save_is_atomic:
  "rtranclp (save_step ev d) (AtMkdir, w)
     (case fst (save_data ev d w) of Inl e \<Rightarrow> Raised e | Inr u \<Rightarrow> Saved, snd (save_data ev d w)) \<and>
   (\<forall>pc w'. rtranclp (save_step ev d) (AtMkdir, w) (pc, w') \<longrightarrow>
      (if pc = Saved then store w' = Some (Dumped d) else store w' = store w) \<and>
      (pc = AtReplace \<longrightarrow> temp w' = Some (Dumped d)) \<and>
      (pc = Saved \<longrightarrow> save_data ev d w = (Inr (), w')) \<and>
      (\<forall>e. pc = Raised e \<longrightarrow> save_data ev d w = (Inl e, w')))"
proof (intro conjI allI impI)
  show "rtranclp (save_step ev d) (AtMkdir, w)
     (case fst (save_data ev d w) of Inl e \<Rightarrow> Raised e | Inr u \<Rightarrow> Saved, snd (save_data ev d w))"
    by (rule save_reaches_end)
next
  fix pc w' assume r: "rtranclp (save_step ev d) (AtMkdir, w) (pc, w')"
  show "if pc = Saved then store w' = Some (Dumped d) else store w' = store w"
    using save_inv_store[OF save_inv_reach[OF r]] .
  { assume "pc = AtReplace"
    then show "temp w' = Some (Dumped d)" using save_inv_reach[OF r] by simp }
  { assume "pc = Saved"
    then show "save_data ev d w = (Inr (), w')" using save_inv_reach[OF r] by simp }
  { fix e assume "pc = Raised e"
    then show "save_data ev d w = (Inl e, w')" using save_inv_reach[OF r] by simp }
qed

theorem save_is_atomic_witness:
  "rtranclp (save_step (calm []) doc1) (AtMkdir, holding (Dumped get_default_data))
     (AtWrite 1, (holding (Dumped get_default_data))\<lparr>temp := Some (Cut 1 doc1)\<rparr>) \<and>
   store ((holding (Dumped get_default_data))\<lparr>temp := Some (Cut 1 doc1)\<rparr>) = Some (Dumped get_default_data) \<and>
   rtranclp (save_step (calm []) doc1) (AtMkdir, holding (Dumped get_default_data))
     (Saved, holding (Dumped doc1))"
proof -
  let ?w = "holding (Dumped get_default_data)"
  have n: "save_fault (calm []) = None" by (simp add: calm_def)
  have "save_step (calm []) doc1 (AtMkdir, ?w) (AtOpen, ?w)" using n by (auto intro: mkdir_done)
  moreover have "save_step (calm []) doc1 (AtOpen, ?w) (AtWrite 0, ?w\<lparr>temp := Some (Cut 0 doc1)\<rparr>)"
    using n by (intro step_open) auto
  moreover have "save_step (calm []) doc1 (AtWrite 0, ?w\<lparr>temp := Some (Cut 0 doc1)\<rparr>)
      (AtWrite (Suc 0), ?w\<lparr>temp := Some (Cut (Suc 0) doc1)\<rparr>)"
    using n by (intro step_write) auto
  ultimately have r: "rtranclp (save_step (calm []) doc1) (AtMkdir, ?w)
      (AtWrite 1, ?w\<lparr>temp := Some (Cut 1 doc1)\<rparr>)"
    by (simp add: rtranclp.rtrancl_into_rtrancl)
  have s: "snd (save_data (calm []) doc1 ?w) = holding (Dumped doc1)"
    "fst (save_data (calm []) doc1 ?w) = Inr ()"
    by (simp_all add: save_data_def calm_def holding_def)
  note t = save_is_atomic [of "calm []" doc1 ?w]
  from t r have "store (?w\<lparr>temp := Some (Cut 1 doc1)\<rparr>) = Some (Dumped get_default_data)"
    by (simp add: holding_def)
  moreover from t s have "rtranclp (save_step (calm []) doc1) (AtMkdir, ?w) (Saved, holding (Dumped doc1))"
    by simp
  ultimately show ?thesis using r by simp
qed

section \<open>The invariant and the assignment of ids\<close>

lemma doc_inv_default: "doc_inv get_default_data"
  by (simp add: doc_inv_def wf_default default_fields)

lemma world_ok_store: "store w1 = store w \<Longrightarrow> world_ok n w1 = world_ok n w"
  by (simp add: world_ok_def)

lemma world_ok_load_quiet:
  assumes "world_ok n w" "read_fault ev = None"
  shows "\<exists>d. load_data ev w = (Inr d, w) \<and> doc_inv d \<and> doc_next_id d = n"
proof (cases "store w")
  case None
  then have "load_data ev w = (Inr get_default_data, w)"
    using assms(2) by (simp add: load_data_missing)
  then show ?thesis using assms(1) None
    by (simp add: world_ok_def doc_inv_default default_fields)
next
  case (Some c)
  then obtain d where d: "c = Dumped d" "doc_inv d" "doc_next_id d = n"
    using assms(1) by (cases c) (auto simp: world_ok_def)
  have "is_dict d" "has_key d ''tasks''" "has_key d ''next_id''"
    using d(2) wf_document_fields(4-6) by (simp_all add: doc_inv_def)
  then have "load_data ev w = (Inr d, w)"
    using assms(2) Some d(1) by (simp add: load_data_stored)
  then show ?thesis using d by simp
qed

lemma world_ok_load:
  assumes "world_ok n w"
  shows "(\<exists>e w1. load_data ev w = (Inl e, w1) \<and> store w1 = store w) \<or>
         (\<exists>d w1. load_data ev w = (Inr d, w1) \<and> store w1 = store w \<and> doc_inv d \<and> doc_next_id d = n)"
proof (cases "fst (load_data ev w)")
  case (Inl e)
  then have "load_data ev w = (Inl e, snd (load_data ev w))" by (simp add: prod_eq_iff)
  then show ?thesis using load_data_files(1)[of ev w] by blast
next
  case (Inr d)
  have l: "load_data ev w = (Inr d, snd (load_data ev w))" using Inr by (simp add: prod_eq_iff)
  have "doc_inv d \<and> doc_next_id d = n"
  proof (cases "read_fault ev")
    case None
    from world_ok_load_quiet[OF assms None] l show ?thesis by auto
  next
    case (Some rf)
    show ?thesis
    proof (cases rf)
      case (ExistsRaises e)
      then show ?thesis using Some Inr by (simp add: load_data_def storage_exists_def)
    next
      case (OpenRaises e)
      have "store w = None"
      proof (rule ccontr)
        assume "store w \<noteq> None"
        then obtain d' where "store w = Some (Dumped d')"
          using assms by (cases "store w"; cases "the (store w)") (auto simp: world_ok_def)
        then show False using Some OpenRaises Inr
          by (simp add: load_data_def storage_exists_def)
      qed
      then have "load_data ev w = (Inr get_default_data, w)"
        using Some OpenRaises by (simp add: load_data_missing)
      then show ?thesis using assms l \<open>store w = None\<close>
        by (simp add: world_ok_def doc_inv_default default_fields)
    qed
  qed
  then show ?thesis using l load_data_files(1)[of ev w] by blast
qed

lemma world_ok_current:
  assumes "world_ok n w"
  shows "doc_inv (current_doc w) \<and> doc_next_id (current_doc w) = n"
  using world_ok_load_quiet[OF assms, of "calm []"]
  by (auto simp: current_doc_def calm_simps)

lemma save_data_store:
  "save_data ev d w = (r, w') \<Longrightarrow>
   (save_fault ev = None \<and> r = Inr () \<and> store w' = Some (Dumped d)) \<or>
   (\<exists>e. r = Inl e \<and> store w' = store w)"
  by (auto simp: save_data_def report_save_def split: option.splits save_fault.splits)

lemma save_data_quiet: "save_fault ev = None \<Longrightarrow> \<exists>w'. save_data ev d w = (Inr (), w')"
  by (simp add: save_data_def)

lemma world_ok_saved:
  assumes "save_data ev d' w1 = (r, w2)" "world_ok n w1" "doc_inv d'" "doc_next_id d' = m"
  shows "(\<exists>e. r = Inl e \<and> world_ok n w2) \<or> (r = Inr () \<and> world_ok m w2)"
  using save_data_store[OF assms(1)] assms(2-4) by (auto simp: world_ok_def)

lemma wf_mark_done: "wf_task t \<Longrightarrow> wf_task (mark_done t)"
  by (cases t) (auto simp: mark_done_def has_field_def map_of_dict_set)

lemma task_id_mark_done: "wf_task t \<Longrightarrow> task_id (mark_done t) = task_id t"
  by (simp add: task_id_def mark_done_fields)

lemma wf_set_tasks:
  assumes "wf_document d" "list_all wf_task xs" "set_item d ''tasks'' (JArr xs) = Inr d'"
  shows "wf_document d'"
  using assms by (cases d) (auto simp: has_field_def map_of_dict_set)

lemma doc_inv_add:
  assumes "doc_inv d" "add_to d s now = Inr (t, d')"
  shows "doc_inv d' \<and> doc_next_id d' = doc_next_id d + 1 \<and> task_id t = doc_next_id d"
proof -
  have wf: "wf_document d" using assms(1) by (simp add: doc_inv_def)
  from add_to_wf[OF wf, of s now] assms(2)
  have t: "t = new_task (JInt (doc_next_id d)) s now"
    and d': "doc_tasks d' = doc_tasks d @ [t]" "doc_next_id d' = doc_next_id d + 1" "wf_document d'"
    by auto
  have id: "task_id t = doc_next_id d"
    by (simp add: t new_task_def task_id_def field_def)
  have "distinct (map task_id (doc_tasks d'))"
    using assms(1) id d'(1) by (auto simp: doc_inv_def list_all_iff)
  moreover have "list_all (\<lambda>t. task_id t < doc_next_id d') (doc_tasks d')"
    using assms(1) id d'(1,2) by (auto simp: doc_inv_def list_all_iff)
  ultimately show ?thesis using d' id by (simp add: doc_inv_def)
qed

lemma doc_inv_complete:
  assumes "doc_inv d" "complete_in d i = Inr (Some d')"
  shows "doc_inv d' \<and> doc_next_id d' = doc_next_id d"
proof -
  have wf: "wf_document d" using assms(1) by (simp add: doc_inv_def)
  have "i \<in> task_id ` set (doc_tasks d)"
    using complete_in_miss[OF wf, of i] assms(2) by auto
  then have "\<exists>x\<in>set (doc_tasks d). task_id x = i" by auto
  from split_list_first_prop[OF this]
  obtain pre t post where p: "doc_tasks d = pre @ t # post" "task_id t = i"
    "\<forall>y\<in>set pre. task_id y \<noteq> i"
    by blast
  have "i \<notin> task_id ` set pre" using p(3) by auto
  from complete_in_hit[OF wf p(1) this p(2)] assms(2)
  have s: "set_item d ''tasks'' (JArr (pre @ mark_done t # post)) = Inr d'" by auto
  have wts: "list_all wf_task (pre @ t # post)"
    using wf_document_fields(3)[OF wf] p(1) by simp
  then have wt: "wf_task t" by simp
  have f: "doc_tasks d' = pre @ mark_done t # post" "doc_next_id d' = doc_next_id d"
    using doc_fields_set_tasks[OF s] by simp_all
  have ids: "map task_id (doc_tasks d') = map task_id (doc_tasks d)"
    using f(1) p(1) task_id_mark_done[OF wt] by simp
  have "wf_document d'"
    using wf_set_tasks[OF wf _ s] wts wf_mark_done[OF wt] by simp
  moreover have "list_all (\<lambda>t. task_id t < doc_next_id d') (doc_tasks d')"
    using assms(1) f p(1) task_id_mark_done[OF wt] by (auto simp: doc_inv_def list_all_iff)
  ultimately show ?thesis using assms(1) ids f(2) by (simp add: doc_inv_def)
qed

lemma doc_inv_delete:
  assumes "doc_inv d" "delete_in d i = Inr (Some d')"
  shows "doc_inv d' \<and> doc_next_id d' = doc_next_id d"
proof -
  have wf: "wf_document d" using assms(1) by (simp add: doc_inv_def)
  from delete_in_wf[OF wf, of i] assms(2)
  have s: "set_item d ''tasks'' (JArr (filter (\<lambda>t. task_id t \<noteq> i) (doc_tasks d))) = Inr d'"
    by (auto split: if_splits)
  have f: "doc_tasks d' = filter (\<lambda>t. task_id t \<noteq> i) (doc_tasks d)" "doc_next_id d' = doc_next_id d"
    using doc_fields_set_tasks[OF s] by simp_all
  have "list_all wf_task (filter (\<lambda>t. task_id t \<noteq> i) (doc_tasks d))"
    using wf_document_fields(3)[OF wf] by (simp add: list_all_iff)
  then have "wf_document d'" using wf_set_tasks[OF wf _ s] by simp
  moreover have "distinct (map task_id (doc_tasks d'))"
    using assms(1) f(1) by (simp add: doc_inv_def distinct_map_filter)
  moreover have "list_all (\<lambda>t. task_id t < doc_next_id d') (doc_tasks d')"
    using assms(1) f by (simp add: doc_inv_def list_all_iff)
  ultimately show ?thesis using f(2) by (simp add: doc_inv_def)
qed

lemma world_ok_add:
  assumes "world_ok n w" "add_task ev s w = (r, w')"
  shows "(\<exists>e. r = Inl e \<and> world_ok n w') \<or> (\<exists>t. r = Inr t \<and> task_id t = n \<and> world_ok (n + 1) w')"
  using world_ok_load[OF assms(1), of ev]
proof (elim disjE exE conjE)
  fix e w1 assume l: "load_data ev w = (Inl e, w1)" "store w1 = store w"
  have "world_ok n w1" using world_ok_store[OF l(2), of n] assms(1) by simp
  then show ?thesis using assms(2) l(1) by (auto simp: add_task_def)
next
  fix d w1 assume l: "load_data ev w = (Inr d, w1)" "store w1 = store w" "doc_inv d" "doc_next_id d = n"
  have ok1: "world_ok n w1" using world_ok_store[OF l(2), of n] assms(1) by simp
  have wf: "wf_document d" using l(3) by (simp add: doc_inv_def)
  obtain t d' where a: "add_to d s (clock ev) = Inr (t, d')"
    using add_to_wf[OF wf, of s "clock ev"] by blast
  note i = doc_inv_add[OF l(3) a]
  obtain r2 w2 where sv: "save_data ev d' w1 = (r2, w2)" by (cases "save_data ev d' w1")
  have res: "(r, w') = (case r2 of Inl e \<Rightarrow> (Inl e, w2) | Inr u \<Rightarrow> (Inr t, w2))"
    using assms(2) l(1) a sv by (simp add: add_task_def split: sum.splits)
  from world_ok_saved[OF sv ok1, of "n + 1"] i l(4)
  have "(\<exists>e. r2 = Inl e \<and> world_ok n w2) \<or> (r2 = Inr () \<and> world_ok (n + 1) w2)" by simp
  then show ?thesis using res i l(4) by auto
qed

lemma add_task_quiet:
  assumes "world_ok n w" "quiet ev"
  shows "\<exists>t w'. add_task ev s w = (Inr t, w')"
proof -
  have "read_fault ev = None" using assms(2) by (simp add: quiet_def)
  from world_ok_load_quiet[OF assms(1) this]
  obtain d w1 where l: "load_data ev w = (Inr d, w1)" "doc_inv d"
    by auto
  have wf: "wf_document d" using l(2) by (simp add: doc_inv_def)
  obtain t d' where a: "add_to d s (clock ev) = Inr (t, d')"
    using add_to_wf[OF wf, of s "clock ev"] by blast
  show ?thesis using l(1) a assms(2) by (simp add: add_task_def save_data_def quiet_def)
qed

lemma world_ok_transaction:
  assumes "world_ok n w"
    and "\<And>d d'. doc_inv d \<Longrightarrow> doc_next_id d = n \<Longrightarrow> F d = Inr (Some d') \<Longrightarrow>
           doc_inv d' \<and> doc_next_id d' = n"
  shows "world_ok n (snd (case load_data ev w of
       (Inl e, w1) \<Rightarrow> (Inl e, w1)
     | (Inr data, w1) \<Rightarrow>
        (case F data of
           Inl e \<Rightarrow> (Inl e, w1)
         | Inr None \<Rightarrow> (Inr False, w1)
         | Inr (Some data') \<Rightarrow>
            (case save_data ev data' w1 of
               (Inl e, w2) \<Rightarrow> (Inl e, w2)
             | (Inr u, w2) \<Rightarrow> (Inr True, w2)))))"
  using world_ok_load[OF assms(1), of ev]
proof (elim disjE exE conjE)
  fix e w1 assume l: "load_data ev w = (Inl e, w1)" "store w1 = store w"
  have "world_ok n w1" using world_ok_store[OF l(2), of n] assms(1) by simp
  then show ?thesis using l(1) by simp
next
  fix d w1 assume l: "load_data ev w = (Inr d, w1)" "store w1 = store w" "doc_inv d" "doc_next_id d = n"
  have ok1: "world_ok n w1" using world_ok_store[OF l(2), of n] assms(1) by simp
  show ?thesis
  proof (cases "F d")
    case (Inl e) then show ?thesis using l(1) ok1 by simp
  next
    case (Inr x)
    show ?thesis
    proof (cases x)
      case None then show ?thesis using l(1) ok1 Inr by simp
    next
      case (Some d')
      obtain r2 w2 where sv: "save_data ev d' w1 = (r2, w2)" by (cases "save_data ev d' w1")
      have "doc_inv d' \<and> doc_next_id d' = n" using assms(2)[OF l(3,4)] Inr Some by simp
      with world_ok_saved[OF sv ok1, of n] have "world_ok n w2" by auto
      then show ?thesis using l(1) Inr Some sv by (cases r2) simp_all
    qed
  qed
qed

lemma world_ok_complete: "world_ok n w \<Longrightarrow> world_ok n (snd (complete_task ev i w))"
  unfolding complete_task_def
  by (rule world_ok_transaction) (auto dest: doc_inv_complete)

lemma world_ok_delete: "world_ok n w \<Longrightarrow> world_ok n (snd (delete_task ev i w))"
  unfolding delete_task_def
  by (rule world_ok_transaction) (auto dest: doc_inv_delete)

lemma exec_ids:
  "world_ok n w \<Longrightarrow> exec cs w = (ts, w') \<Longrightarrow>
   world_ok (n + int (length ts)) w' \<and>
   map task_id ts = map (\<lambda>k. n + int k) [0..<length ts] \<and>
   ((\<forall>c\<in>set cs. quiet (fst c)) \<longrightarrow> length ts = length (filter is_add cs))"
proof (induction cs w arbitrary: n ts w' rule: exec.induct)
  case (1 w)
  then show ?case by simp
next
  case (2 ev s cs w)
  obtain r w1 where a: "add_task ev s w = (r, w1)" by (cases "add_task ev s w")
  from world_ok_add[OF "2.prems"(1) a]
  show ?case
  proof (elim disjE exE conjE)
    fix e assume r: "r = Inl e" and ok: "world_ok n w1"
    have ex: "exec cs w1 = (ts, w')" using "2.prems"(2) a r by simp
    have nq: "\<not> quiet ev" using add_task_quiet[OF "2.prems"(1), of ev s] a r by auto
    show ?thesis using "2.IH"(1)[OF a[symmetric] _ ok ex] r nq by simp
  next
    fix t assume r: "r = Inr t" and id: "task_id t = n" and ok: "world_ok (n + 1) w1"
    obtain ts1 where ex: "exec cs w1 = (ts1, w')" and ts: "ts = t # ts1"
      using "2.prems"(2) a r by (auto split: prod.splits)
    from "2.IH"(2)[OF a[symmetric] _ ok ex] r
    have ih: "world_ok (n + 1 + int (length ts1)) w'"
      "map task_id ts1 = map (\<lambda>k. n + 1 + int k) [0..<length ts1]"
      "(\<forall>c\<in>set cs. quiet (fst c)) \<longrightarrow> length ts1 = length (filter is_add cs)"
      by simp_all
    have "map task_id ts = map (\<lambda>k. n + int k) [0..<length ts]"
      unfolding ts using id ih(2) by (simp add: map_upt_Suc add.assoc del: upt_Suc)
    moreover have "world_ok (n + int (length ts)) w'"
      using ih(1) ts by (simp add: algebra_simps)
    ultimately show ?thesis using ih(3) ts by simp
  qed
next
  case (3 ev i cs w)
  have ok: "world_ok n (snd (complete_task ev i w))"
    using world_ok_complete[OF "3.prems"(1)] .
  have ex: "exec cs (snd (complete_task ev i w)) = (ts, w')" using "3.prems"(2) by simp
  from "3.IH"[OF ok ex] show ?case by simp
next
  case (4 ev i cs w)
  have ok: "world_ok n (snd (delete_task ev i w))"
    using world_ok_delete[OF "4.prems"(1)] .
  have ex: "exec cs (snd (delete_task ev i w)) = (ts, w')" using "4.prems"(2) by simp
  from "4.IH"[OF ok ex] show ?case by simp
qed

lemma fresh_store: "store fresh = None"
  by (simp add: fresh_def)

lemma world_ok_fresh: "store w = None \<Longrightarrow> world_ok 1 w"
  by (simp add: world_ok_def)

text \<open>
  Claim C1. Start without a storage file, so that the first call loads the default
  document, and run any sequence of calls of \<^verbatim>\<open>add_task\<close>, \<^verbatim>\<open>complete_task\<close> and
  \<^verbatim>\<open>delete_task\<close>, each in any environment (failing reads and saves included). The document
  then in the store is well formed, the ids of its tasks are pairwise different and all less
  than its \<^verbatim>\<open>next_id\<close>, and one more call, whatever it is, does not decrease \<^verbatim>\<open>next_id\<close>.
\<close>

theorem store_invariant:
  assumes "store w = None"
  shows "doc_inv (current_doc (snd (exec cs w))) \<and>
         (\<forall>c. doc_next_id (current_doc (snd (exec cs w))) \<le>
               doc_next_id (current_doc (snd (exec [c] (snd (exec cs w))))))"
proof -
  obtain ts w' where e: "exec cs w = (ts, w')" by (cases "exec cs w")
  from exec_ids[OF world_ok_fresh[OF assms] e]
  have ok: "world_ok (1 + int (length ts)) w'" by simp
  have "doc_next_id (current_doc w') \<le> doc_next_id (current_doc (snd (exec [c] w')))" for c
  proof -
    obtain ts2 w2 where e2: "exec [c] w' = (ts2, w2)" by (cases "exec [c] w'")
    from exec_ids[OF ok e2] have "world_ok (1 + int (length ts) + int (length ts2)) w2" by simp
    from world_ok_current[OF this] world_ok_current[OF ok] e2
    show ?thesis by simp
  qed
  then show ?thesis using world_ok_current[OF ok] e by simp
qed

text \<open>
  Claim C7. Start without a storage file and run any sequence of calls, deletions and
  completions interleaved at will. The ids given to the tasks that \<^verbatim>\<open>add_task\<close> returns are
  1, 2, 3, ... in the order of the calls, so no id is given twice, whatever was deleted in
  between; after \<open>N\<close> tasks were added, \<^verbatim>\<open>next_id\<close> is \<open>N + 1\<close>. When no file operation
  fails, every call of \<^verbatim>\<open>add_task\<close> adds its task, so \<open>N\<close> is the number of those calls.
\<close>

theorem ids_are_sequential:
  assumes "store w = None"
  shows "map task_id (fst (exec cs w)) = map (\<lambda>k. int k + 1) [0..<length (fst (exec cs w))] \<and>
         distinct (map task_id (fst (exec cs w))) \<and>
         doc_next_id (current_doc (snd (exec cs w))) = int (length (fst (exec cs w))) + 1 \<and>
         ((\<forall>c\<in>set cs. quiet (fst c)) \<longrightarrow> length (fst (exec cs w)) = length (filter is_add cs))"
proof -
  obtain ts w' where e: "exec cs w = (ts, w')" by (cases "exec cs w")
  from exec_ids[OF world_ok_fresh[OF assms] e]
  have ok: "world_ok (1 + int (length ts)) w'"
    and ids: "map task_id ts = map (\<lambda>k. 1 + int k) [0..<length ts]"
    and len: "(\<forall>c\<in>set cs. quiet (fst c)) \<longrightarrow> length ts = length (filter is_add cs)"
    by simp_all
  have "distinct (map (\<lambda>k. 1 + int k) [0..<length ts])"
    by (simp add: distinct_map inj_on_def)
  then have "distinct (map task_id ts)" using ids by simp
  then show ?thesis using ids len world_ok_current[OF ok] e by (simp add: add.commute)
qed

theorem store_invariant_witness:
  "doc_inv (current_doc (snd (exec [(calm ''t1'', Add ''A''), (calm ''t2'', Add ''B''),
                                   (calm [], Delete 1), (calm ''t3'', Add ''C'')] fresh)))"
  using store_invariant [OF fresh_store, of "[(calm ''t1'', Add ''A''), (calm ''t2'', Add ''B''),
                                   (calm [], Delete 1), (calm ''t3'', Add ''C'')]"]
  by (simp del: exec.simps)

theorem ids_are_sequential_witness:
  "map task_id (fst (exec [(calm ''t1'', Add ''A''), (calm [], Delete 1),
                           (calm ''t2'', Add ''B'')] fresh)) = [1, 2] \<and>
   doc_next_id (current_doc (snd (exec [(calm ''t1'', Add ''A''), (calm [], Delete 1),
                           (calm ''t2'', Add ''B'')] fresh))) = 3"
proof -
  note t = ids_are_sequential [OF fresh_store, of "[(calm ''t1'', Add ''A''), (calm [], Delete 1),
                           (calm ''t2'', Add ''B'')]"]
  have len: "length (fst (exec [(calm ''t1'', Add ''A''), (calm [], Delete 1),
                           (calm ''t2'', Add ''B'')] fresh)) = Suc (Suc 0)"
    using t by (simp add: quiet_def calm_simps del: exec.simps)
  from t[unfolded len] show ?thesis by (simp del: exec.simps)
qed

end
